theory Spec2Isabelle
  imports Main "HOL-Library.Word" "HOL-Library.Multiset" "HOL-Library.Monad_Syntax"
begin

section \<open>Byte slices over shared arrays (go\_exp.go, lines 220--266)\<close>

text \<open>
  A Go slice is a window (offset, length, capacity) on an underlying array. Two slices of
  one array alias each other, so the arrays live in an explicit heap: a list of arrays,
  a slice naming its array by position. A byte is a \<open>char\<close>. A slice expression or an
  index out of range panics in Go: every operation returns \<open>None\<close> there.

  The Go specification leaves the capacity of a freshly allocated array open (the runtime
  rounds it up); \<open>spare\<close> is the number of extra zero bytes an allocation gets.
\<close>

type_synonym byte = char

record slice =
  arr :: nat
  off :: nat
  len :: nat
  cap :: nat

type_synonym heap = "byte list list"

definition alloc :: "nat \<Rightarrow> byte list \<Rightarrow> heap \<Rightarrow> slice \<times> heap" where
  \<comment> \<open>a new array holding \<open>bs\<close>, and the slice of all of \<open>bs\<close>\<close>
  "alloc spare bs h =
     (\<lparr>arr = length h, off = 0, len = length bs, cap = length bs + spare\<rparr>,
      h @ [bs @ replicate spare (CHR 0x00)])"

definition contents :: "heap \<Rightarrow> slice \<Rightarrow> byte list" where
  \<comment> \<open>\<open>string(s)\<close>: the elements the slice sees\<close>
  "contents h s = take (len s) (drop (off s) (h ! arr s))"

definition IndexByte :: "heap \<Rightarrow> slice \<Rightarrow> byte \<Rightarrow> int" where
  \<comment> \<open>\<open>bytes.IndexByte\<close>: the index of the first \<open>c\<close>, or \<open>-1\<close>\<close>
  "IndexByte h s c =
     (case find (\<lambda>i. contents h s ! i = c) [0..<len s] of
        None \<Rightarrow> - 1 | Some i \<Rightarrow> int i)"

definition reslice :: "slice \<Rightarrow> int \<Rightarrow> int \<Rightarrow> slice option" where
  \<comment> \<open>\<open>s[lo:hi]\<close>: the capacity reaches to the end of the array\<close>
  "reslice s lo hi =
     (if 0 \<le> lo \<and> lo \<le> hi \<and> hi \<le> int (cap s)
      then Some \<lparr>arr = arr s, off = off s + nat lo, len = nat hi - nat lo,
                 cap = cap s - nat lo\<rparr>
      else None)"

definition reslice_from :: "slice \<Rightarrow> int \<Rightarrow> slice option" where
  \<comment> \<open>\<open>s[lo:]\<close> is \<open>s[lo:len(s)]\<close>\<close>
  "reslice_from s lo = reslice s lo (int (len s))"

definition reslice_full :: "slice \<Rightarrow> int \<Rightarrow> int \<Rightarrow> int \<Rightarrow> slice option" where
  \<comment> \<open>the full slice expression \<open>s[lo:hi:max]\<close>: the capacity is \<open>max - lo\<close>\<close>
  "reslice_full s lo hi mx =
     (if 0 \<le> lo \<and> lo \<le> hi \<and> hi \<le> mx \<and> mx \<le> int (cap s)
      then Some \<lparr>arr = arr s, off = off s + nat lo, len = nat hi - nat lo,
                 cap = nat mx - nat lo\<rparr>
      else None)"

definition append_bytes :: "nat \<Rightarrow> heap \<Rightarrow> slice \<Rightarrow> byte list \<Rightarrow> slice \<times> heap" where
  \<comment> \<open>\<open>append(s, bs...)\<close>: in place while the capacity suffices, else into a new array\<close>
  "append_bytes spare h s bs =
     (if len s + length bs \<le> cap s
      then (s\<lparr>len := len s + length bs\<rparr>,
            h[arr s := take (off s + len s) (h ! arr s) @ bs
                       @ drop (off s + len s + length bs) (h ! arr s)])
      else alloc spare (contents h s @ bs) h)"

fun join_bytes :: "byte list list \<Rightarrow> byte list \<Rightarrow> byte list" where
  "join_bytes [] sep = []"
| "join_bytes [x] sep = x"
| "join_bytes (x # y # ys) sep = x @ sep @ join_bytes (y # ys) sep"

definition Join :: "nat \<Rightarrow> heap \<Rightarrow> slice list \<Rightarrow> byte list \<Rightarrow> slice \<times> heap" where
  \<comment> \<open>\<open>bytes.Join\<close> writes the joined elements into a new array\<close>
  "Join spare h ss sep = alloc spare (join_bytes (map (contents h) ss) sep) h"

text \<open>
  What a run of either \<open>main\<close> leaves: the five lines printed; the capacity of \<open>dir1\<close>
  before the \<open>append\<close>; the array \<open>dir1\<close> points into after it, beside the array
  first allocated for \<open>path\<close> and the number of arrays that exist then; what \<open>dir1\<close>
  and \<open>dir2\<close> read at the end; and what the fourteen bytes of the array first allocated
  for \<open>path\<close> hold then.
\<close>

record split_result =
  printed :: "string list"
  dir1_cap :: nat
  dir1_array :: nat
  path_array :: nat
  arrays_after_append :: nat
  dir1_end :: string
  dir2_end :: string
  path_bytes_end :: string

definition main_reslice :: "nat \<Rightarrow> split_result option" where
  \<comment> \<open>lines 220--235: \<open>dir1 := path[:sepIndex]\<close>\<close>
  "main_reslice spare = do {
     let (path, h) = alloc spare ''AAAA/BBBBBBBBB'' [];
     let path0 = path;
     let sepIndex = IndexByte h path (CHR ''/'');
     dir1 \<leftarrow> reslice path 0 sepIndex;
     dir2 \<leftarrow> reslice_from path (sepIndex + 1);
     let l1 = ''dir1 => '' @ contents h dir1;
     let l2 = ''dir2 => '' @ contents h dir2;
     let c = cap dir1;
     let (dir1, h) = append_bytes spare h dir1 ''suffix'';
     let k = length h;
     let (path, h) = Join spare h [dir1, dir2] [CHR ''/''];
     let l3 = ''dir1 => '' @ contents h dir1;
     let l4 = ''dir2 => '' @ contents h dir2;
     let l5 = ''new path => '' @ contents h path;
     Some \<lparr>printed = [l1, l2, l3, l4, l5], dir1_cap = c, dir1_array = arr dir1,
           path_array = arr path0, arrays_after_append = k,
           dir1_end = contents h dir1, dir2_end = contents h dir2,
           path_bytes_end = contents h path0\<rparr>
   }"

definition main_full_slice :: "nat \<Rightarrow> split_result option" where
  \<comment> \<open>lines 251--266: \<open>dir1 := path[:sepIndex:sepIndex]\<close>\<close>
  "main_full_slice spare = do {
     let (path, h) = alloc spare ''AAAA/BBBBBBBBB'' [];
     let path0 = path;
     let sepIndex = IndexByte h path (CHR ''/'');
     dir1 \<leftarrow> reslice_full path 0 sepIndex sepIndex;
     dir2 \<leftarrow> reslice_from path (sepIndex + 1);
     let l1 = ''dir1 => '' @ contents h dir1;
     let l2 = ''dir2 => '' @ contents h dir2;
     let c = cap dir1;
     let (dir1, h) = append_bytes spare h dir1 ''suffix'';
     let k = length h;
     let (path, h) = Join spare h [dir1, dir2] [CHR ''/''];
     let l3 = ''dir1 => '' @ contents h dir1;
     let l4 = ''dir2 => '' @ contents h dir2;
     let l5 = ''new path => '' @ contents h path;
     Some \<lparr>printed = [l1, l2, l3, l4, l5], dir1_cap = c, dir1_array = arr dir1,
           path_array = arr path0, arrays_after_append = k,
           dir1_end = contents h dir1, dir2_end = contents h dir2,
           path_bytes_end = contents h path0\<rparr>
   }"


section \<open>Interface values holding a nil pointer (go\_exp.go, lines 375--415)\<close>

text \<open>
  An interface value is a pair of a dynamic type and a value; it equals \<open>nil\<close> only when
  it has neither. \<open>NilIface\<close> is that value, \<open>Iface t p\<close> one of dynamic type \<open>t\<close>
  holding the pointer \<open>p\<close>. The only dynamic type of the two closures is \<open>*struct{}\<close>.
  Go's \<open>int\<close> is a 64-bit two's complement integer, compared signed. \<open>a\<close> is the address
  \<open>&struct{}{}\<close> evaluates to.
\<close>

datatype pointer = NilPtr | Addr nat

datatype dyn_type = PtrToStruct

datatype iface = NilIface | Iface dyn_type pointer

fun held :: "iface \<Rightarrow> pointer option" where
  "held NilIface = None"
| "held (Iface t p) = Some p"

definition doit_typed :: "nat \<Rightarrow> 64 word \<Rightarrow> iface" where
  \<comment> \<open>lines 376--384: \<open>return result\<close> converts the \<open>*struct{}\<close> to \<open>interface{}\<close>\<close>
  "doit_typed a arg =
     (let result = NilPtr;
          result = (if 0 < sint arg then Addr a else result)
      in Iface PtrToStruct result)"

definition doit_explicit :: "nat \<Rightarrow> 64 word \<Rightarrow> iface" where
  \<comment> \<open>lines 398--408: the \<open>else\<close> branch returns the literal \<open>nil\<close>\<close>
  "doit_explicit a arg =
     (let result = NilPtr
      in if 0 < sint arg then Iface PtrToStruct (Addr a) else NilIface)"

definition show_iface :: "iface \<Rightarrow> string" where
  \<comment> \<open>how \<open>fmt.Println\<close> shows the value: a nil pointer and a nil interface both as \<open><nil>\<close>\<close>
  "show_iface v = (case v of NilIface \<Rightarrow> ''<nil>'' | Iface t NilPtr \<Rightarrow> ''<nil>''
                   | Iface t (Addr a) \<Rightarrow> ''&{}'')"

definition main_typed :: "nat \<Rightarrow> string list" where
  \<comment> \<open>lines 386--389\<close>
  "main_typed a =
     (let res = doit_typed a (- 1)
      in if res \<noteq> NilIface then [''good result: '' @ show_iface res] else [])"

definition main_explicit :: "nat \<Rightarrow> string list" where
  \<comment> \<open>lines 410--414\<close>
  "main_explicit a =
     (let res = doit_explicit a (- 1)
      in if res \<noteq> NilIface then [''good result: '' @ show_iface res]
         else [''bad result (res is nil)''])"


section \<open>Goroutines, channels and schedules\<close>

text \<open>
  The concurrent programs of the file are modelled as interleavings. A state holds the
  program counter of \<open>main\<close> and of every goroutine started so far; a scheduler event
  picks the goroutine that moves next, and a step function gives the state after the move,
  or \<open>None\<close> when that goroutine cannot move (it is blocked, has ended, or is not there).

  All channels of the file are unbuffered (\<open>make(chan T)\<close>): a send and a receive on one
  complete together, in a single step, when both goroutines are at the operation. A
  \<open>select\<close> with several ready cases takes any of them, so the event says which:
  \<open>Select k c\<close> lets goroutine \<open>k\<close>, waiting in its \<open>select\<close>, take case \<open>c\<close> (counted
  from 0 in source order). \<open>Go k\<close> is any other move of goroutine \<open>k\<close>, \<open>Main\<close> a move
  of \<open>main\<close>. Goroutine \<open>k\<close> is the one started by iteration \<open>k\<close> of the spawning loop.

  Closing a closed channel panics. A negative \<open>sync.WaitGroup\<close> counter panics.
\<close>

datatype event = Main | Go nat | Select nat nat

datatype panic = CloseOfClosed | NegativeCounter

datatype goroutine = MainG | G nat

datatype chan_op = Send | Recv | Close

datatype chan_name = WQ | DONE | CH

type_synonym chan_event = "goroutine \<times> chan_op \<times> chan_name"

definition close_chan :: "bool \<Rightarrow> panic + bool" where
  \<comment> \<open>\<open>close(c)\<close> on a channel whose closed flag is given\<close>
  "close_chan closed = (if closed then Inl CloseOfClosed else Inr True)"

fun run :: "(event \<Rightarrow> 's \<Rightarrow> 's option) \<Rightarrow> event list \<Rightarrow> 's \<Rightarrow> 's option" where
  "run step [] s = Some s"
| "run step (e # es) s = (case step e s of None \<Rightarrow> None | Some s' \<Rightarrow> run step es s')"

definition enabled :: "(event \<Rightarrow> 's \<Rightarrow> 's option) \<Rightarrow> nat \<Rightarrow> 's \<Rightarrow> event list" where
  \<comment> \<open>the events that can happen in a state with \<open>k\<close> goroutines whose selects have two cases\<close>
  "enabled step k s =
     filter (\<lambda>e. step e s \<noteq> None)
       (Main # concat (map (\<lambda>i. [Go i, Select i 0, Select i 1]) [0..<k]))"


section \<open>The worker pool (go\_exp.go, lines 71--103)\<close>

text \<open>
  \<open>main\<close> starts \<open>workerCount\<close> workers, sends \<open>workerCount\<close> items \<open>0, 1, \<dots>\<close> on the
  unbuffered \<open>wq\<close>, closes \<open>done\<close>, waits for the wait group and prints. The source fixes
  \<open>workerCount := 2\<close>; here the number \<open>n\<close> of workers and the number \<open>m\<close> of items sent
  are parameters, the source being \<open>n = m = 2\<close>.

  A worker (\<open>doit\<close>) prints that it runs, then loops on a \<open>select\<close> whose case 0 receives
  an item from \<open>wq\<close> and prints it and whose case 1 receives from \<open>done\<close>, prints and
  returns; the deferred \<open>wg.Done()\<close> runs at the return.
\<close>

datatype worker_pc =
    W_running       \<comment> \<open>line 92, before the first \<open>Printf\<close>\<close>
  | W_select        \<comment> \<open>line 95, waiting in the \<open>select\<close>\<close>
  | W_item nat      \<comment> \<open>line 97, holding the item received, before its \<open>Printf\<close>\<close>
  | W_done          \<comment> \<open>line 99, after the receive from \<open>done\<close>\<close>
  | W_exit          \<comment> \<open>returned; \<open>wg.Done()\<close> has run\<close>

datatype pool_pc =
    P_spawn nat     \<comment> \<open>line 77, loop variable \<open>i\<close>\<close>
  | P_send nat      \<comment> \<open>line 82, loop variable \<open>i\<close>\<close>
  | P_close         \<comment> \<open>line 86\<close>
  | P_wait          \<comment> \<open>line 87\<close>
  | P_println       \<comment> \<open>line 88\<close>
  | P_return

datatype pool_line =
    Running nat     \<comment> \<open>\<open>[workerId] is running\<close>\<close>
  | Item nat nat    \<comment> \<open>\<open>[workerId] m => m\<close>\<close>
  | IsDone nat      \<comment> \<open>\<open>[workerId] is done\<close>\<close>
  | AllDone         \<comment> \<open>\<open>all done!\<close>\<close>

record pool =
  pc :: pool_pc
  workers :: "(nat \<times> worker_pc) list"   \<comment> \<open>the \<open>workerId\<close> argument and the position in \<open>doit\<close>\<close>
  done_closed :: bool
  wg :: int
  out :: "pool_line list"
  ops :: "chan_event list"
  panicked :: "panic option"

definition pool_init :: pool where
  "pool_init = \<lparr>pc = P_spawn 0, workers = [], done_closed = False, wg = 0, out = [],
                ops = [], panicked = None\<rparr>"

definition close_done :: "pool \<Rightarrow> pool" where
  \<comment> \<open>line 86: \<open>close(done)\<close>\<close>
  "close_done s =
     (case close_chan (done_closed s) of
        Inl p \<Rightarrow> s\<lparr>panicked := Some p\<rparr>
      | Inr c \<Rightarrow> s\<lparr>done_closed := c, ops := ops s @ [(MainG, Close, DONE)]\<rparr>)"

definition wg_done :: "pool \<Rightarrow> pool" where
  \<comment> \<open>\<open>wg.Done()\<close>\<close>
  "wg_done s = (if wg s - 1 < 0 then s\<lparr>panicked := Some NegativeCounter\<rparr>
                else s\<lparr>wg := wg s - 1\<rparr>)"

definition pool_main :: "nat \<Rightarrow> nat \<Rightarrow> pool \<Rightarrow> pool option" where
  "pool_main n m s =
     (case pc s of
        P_spawn i \<Rightarrow>
          if i < n
          then Some (s\<lparr>wg := wg s + 1, workers := workers s @ [(i, W_running)],
                       pc := P_spawn (i + 1)\<rparr>)
          else Some (s\<lparr>pc := P_send 0\<rparr>)
      | P_send i \<Rightarrow> if i < m then None else Some (s\<lparr>pc := P_close\<rparr>)
      | P_close \<Rightarrow> Some ((close_done s)\<lparr>pc := P_wait\<rparr>)
      | P_wait \<Rightarrow> if wg s = 0 then Some (s\<lparr>pc := P_println\<rparr>) else None
      | P_println \<Rightarrow> Some (s\<lparr>out := out s @ [AllDone], pc := P_return\<rparr>)
      | P_return \<Rightarrow> None)"

definition doit :: "nat \<Rightarrow> pool \<Rightarrow> pool option" where
  \<comment> \<open>a move of worker \<open>k\<close> outside its \<open>select\<close>\<close>
  "doit k s =
     (if k < length (workers s) then
        (case workers s ! k of
           (workerId, W_running) \<Rightarrow>
             Some (s\<lparr>out := out s @ [Running workerId],
                     workers := (workers s)[k := (workerId, W_select)]\<rparr>)
         | (workerId, W_select) \<Rightarrow> None
         | (workerId, W_item v) \<Rightarrow>
             Some (s\<lparr>out := out s @ [Item workerId v],
                     workers := (workers s)[k := (workerId, W_select)]\<rparr>)
         | (workerId, W_done) \<Rightarrow>
             Some (wg_done (s\<lparr>out := out s @ [IsDone workerId],
                              workers := (workers s)[k := (workerId, W_exit)]\<rparr>))
         | (workerId, W_exit) \<Rightarrow> None)
      else None)"

definition doit_select :: "nat \<Rightarrow> nat \<Rightarrow> nat \<Rightarrow> pool \<Rightarrow> pool option" where
  \<comment> \<open>worker \<open>k\<close>, waiting in its \<open>select\<close>, takes case \<open>c\<close>: case 0 needs \<open>main\<close> at the
      send of an item, which the receive completes; case 1 needs \<open>done\<close> closed\<close>
  "doit_select m k c s =
     (if k < length (workers s) \<and> snd (workers s ! k) = W_select then
        (if c = 0 then
           (case pc s of
              P_send i \<Rightarrow>
                if i < m
                then Some (s\<lparr>pc := P_send (i + 1),
                             workers := (workers s)[k := (fst (workers s ! k), W_item i)],
                             ops := ops s @ [(MainG, Send, WQ), (G k, Recv, WQ)]\<rparr>)
                else None
            | _ \<Rightarrow> None)
         else if c = 1 then
           (if done_closed s
            then Some (s\<lparr>workers := (workers s)[k := (fst (workers s ! k), W_done)],
                         ops := ops s @ [(G k, Recv, DONE)]\<rparr>)
            else None)
         else None)
      else None)"

definition pool_step :: "nat \<Rightarrow> nat \<Rightarrow> event \<Rightarrow> pool \<Rightarrow> pool option" where
  \<comment> \<open>a panic stops the program, and so does the return of \<open>main\<close>\<close>
  "pool_step n m e s =
     (if panicked s \<noteq> None \<or> pc s = P_return then None
      else case e of Main \<Rightarrow> pool_main n m s | Go k \<Rightarrow> doit k s
           | Select k c \<Rightarrow> doit_select m k c s)"

fun executed :: "pool_line list \<Rightarrow> (nat \<times> nat) list" where
  \<comment> \<open>the (worker, item) pairs of the item lines printed\<close>
  "executed [] = []"
| "executed (Item w v # ls) = (w, v) # executed ls"
| "executed (l # ls) = executed ls"



text \<open>
  What the proofs say about a state of the pool: the number of items handed over so far,
  the items received and not yet printed, and the facts that hold in every state the pool
  reaches.
\<close>

definition sent :: "nat \<Rightarrow> pool_pc \<Rightarrow> nat" where
  "sent m p = (case p of P_spawn i \<Rightarrow> 0 | P_send i \<Rightarrow> i | _ \<Rightarrow> m)"

fun carried :: "nat \<times> worker_pc \<Rightarrow> nat multiset" where
  "carried (w, W_item v) = {#v#}"
| "carried (w, p) = {#}"

definition holding :: "(nat \<times> worker_pc) list \<Rightarrow> nat multiset" where
  "holding ws = (\<Sum>w\<in>#mset ws. carried w)"

definition pool_shape :: "nat \<Rightarrow> nat \<Rightarrow> pool \<Rightarrow> bool" where
  "pool_shape n m s \<longleftrightarrow>
     panicked s = None \<and>
     map fst (workers s) = [0..<length (workers s)] \<and>
     (case pc s of P_spawn i \<Rightarrow> length (workers s) = i \<and> i \<le> n
        | P_send i \<Rightarrow> length (workers s) = n \<and> i \<le> m
        | _ \<Rightarrow> length (workers s) = n) \<and>
     (done_closed s \<longleftrightarrow> pc s \<in> {P_wait, P_println, P_return}) \<and>
     (\<not> done_closed s \<longrightarrow> (\<forall>w\<in>set (workers s). snd w \<notin> {W_done, W_exit})) \<and>
     wg s = int (size (filter_mset (\<lambda>w. snd w \<noteq> W_exit) (mset (workers s)))) \<and>
     (pc s \<in> {P_println, P_return} \<longrightarrow> (\<forall>w\<in>set (workers s). snd w = W_exit))"

definition pool_items :: "nat \<Rightarrow> nat \<Rightarrow> pool \<Rightarrow> bool" where
  "pool_items n m s \<longleftrightarrow>
     mset (map snd (executed (out s))) + holding (workers s) = mset [0..<sent m (pc s)] \<and>
     (\<forall>p\<in>set (executed (out s)). fst p < n)"

definition pool_ops :: "pool \<Rightarrow> bool" where
  "pool_ops s \<longleftrightarrow>
     (\<forall>x\<in>set (ops s). snd (snd x) = DONE \<longrightarrow>
        (\<exists>k. x = (G k, Recv, DONE)) \<or> x = (MainG, Close, DONE)) \<and>
     count_list (ops s) (MainG, Close, DONE) = (if done_closed s then 1 else 0)"

fun worker_rank :: "nat \<times> worker_pc \<Rightarrow> nat" where
  "worker_rank (w, W_running) = 3"
| "worker_rank (w, W_select) = 2"
| "worker_rank (w, W_item v) = 3"
| "worker_rank (w, W_done) = 1"
| "worker_rank (w, W_exit) = 0"

definition pool_rank :: "nat \<Rightarrow> nat \<Rightarrow> pool \<Rightarrow> nat" where
  \<comment> \<open>a bound on the number of steps the pool can still take\<close>
  "pool_rank n m s =
     (case pc s of P_spawn i \<Rightarrow> 4 * (n - i) + 2 * m + 5 | P_send i \<Rightarrow> 2 * (m - i) + 4
        | P_close \<Rightarrow> 3 | P_wait \<Rightarrow> 2 | P_println \<Rightarrow> 1 | P_return \<Rightarrow> 0)
     + (\<Sum>w\<in>#mset (workers s). worker_rank w)"


section \<open>First result wins, with a \<open>done\<close> channel (go\_exp.go, lines 146--163)\<close>

text \<open>
  \<open>main\<close> starts three goroutines; goroutine \<open>idx\<close> waits in a \<open>select\<close> whose case 0
  sends \<open>(idx + 1) * 2\<close> on the unbuffered \<open>ch\<close> and whose case 1 receives from \<open>done\<close>,
  and prints which one it took. \<open>main\<close> receives one value, prints it, closes \<open>done\<close>,
  sleeps and returns. The number \<open>n\<close> of goroutines is a parameter, 3 in the source. When
  the sleep ends is left to the schedule.
\<close>

datatype racer_goroutine_pc =
    A_select        \<comment> \<open>line 151, waiting in the \<open>select\<close>\<close>
  | A_sent          \<comment> \<open>line 152, the send done, before \<open>Println\<close>\<close>
  | A_exiting       \<comment> \<open>line 153, after the receive from \<open>done\<close>, before \<open>Println\<close>\<close>
  | A_end

datatype racer_pc =
    R_spawn nat     \<comment> \<open>line 149, loop variable \<open>i\<close>\<close>
  | R_recv          \<comment> \<open>line 159, waiting in \<open><-ch\<close>\<close>
  | R_println nat   \<comment> \<open>line 159, holding the value received\<close>
  | R_close         \<comment> \<open>line 160\<close>
  | R_sleep         \<comment> \<open>line 162\<close>
  | R_return

datatype racer_line =
    SentResult nat  \<comment> \<open>\<open>idx sent result\<close>\<close>
  | Exiting nat     \<comment> \<open>\<open>idx exiting\<close>\<close>
  | Result nat      \<comment> \<open>\<open>result: v\<close>\<close>

record racer =
  r_pc :: racer_pc
  r_goroutines :: "(nat \<times> racer_goroutine_pc) list"   \<comment> \<open>the \<open>idx\<close> argument and the position\<close>
  r_done_closed :: bool
  r_out :: "racer_line list"
  r_ops :: "chan_event list"
  r_panicked :: "panic option"

definition racer_init :: racer where
  "racer_init = \<lparr>r_pc = R_spawn 0, r_goroutines = [], r_done_closed = False, r_out = [],
                 r_ops = [], r_panicked = None\<rparr>"

definition racer_close_done :: "racer \<Rightarrow> racer" where
  \<comment> \<open>line 160: \<open>close(done)\<close>\<close>
  "racer_close_done s =
     (case close_chan (r_done_closed s) of
        Inl p \<Rightarrow> s\<lparr>r_panicked := Some p\<rparr>
      | Inr c \<Rightarrow> s\<lparr>r_done_closed := c, r_ops := r_ops s @ [(MainG, Close, DONE)]\<rparr>)"

definition racer_main :: "nat \<Rightarrow> racer \<Rightarrow> racer option" where
  "racer_main n s =
     (case r_pc s of
        R_spawn i \<Rightarrow>
          if i < n
          then Some (s\<lparr>r_goroutines := r_goroutines s @ [(i, A_select)], r_pc := R_spawn (i + 1)\<rparr>)
          else Some (s\<lparr>r_pc := R_recv\<rparr>)
      | R_recv \<Rightarrow> None
      | R_println v \<Rightarrow> Some (s\<lparr>r_out := r_out s @ [Result v], r_pc := R_close\<rparr>)
      | R_close \<Rightarrow> Some ((racer_close_done s)\<lparr>r_pc := R_sleep\<rparr>)
      | R_sleep \<Rightarrow> Some (s\<lparr>r_pc := R_return\<rparr>)
      | R_return \<Rightarrow> None)"

definition racer_go :: "nat \<Rightarrow> racer \<Rightarrow> racer option" where
  \<comment> \<open>a move of goroutine \<open>k\<close> outside its \<open>select\<close>\<close>
  "racer_go k s =
     (if k < length (r_goroutines s) then
        (case r_goroutines s ! k of
           (idx, A_select) \<Rightarrow> None
         | (idx, A_sent) \<Rightarrow>
             Some (s\<lparr>r_out := r_out s @ [SentResult idx],
                     r_goroutines := (r_goroutines s)[k := (idx, A_end)]\<rparr>)
         | (idx, A_exiting) \<Rightarrow>
             Some (s\<lparr>r_out := r_out s @ [Exiting idx],
                     r_goroutines := (r_goroutines s)[k := (idx, A_end)]\<rparr>)
         | (idx, A_end) \<Rightarrow> None)
      else None)"

definition racer_select :: "nat \<Rightarrow> nat \<Rightarrow> racer \<Rightarrow> racer option" where
  \<comment> \<open>goroutine \<open>k\<close>, waiting in its \<open>select\<close>, takes case \<open>c\<close>: case 0 needs \<open>main\<close> waiting
      in its receive, which the send completes; case 1 needs \<open>done\<close> closed\<close>
  "racer_select k c s =
     (if k < length (r_goroutines s) \<and> snd (r_goroutines s ! k) = A_select then
        (if c = 0 then
           (if r_pc s = R_recv
            then Some (s\<lparr>r_pc := R_println ((fst (r_goroutines s ! k) + 1) * 2),
                         r_goroutines := (r_goroutines s)[k := (fst (r_goroutines s ! k), A_sent)],
                         r_ops := r_ops s @ [(G k, Send, CH), (MainG, Recv, CH)]\<rparr>)
            else None)
         else if c = 1 then
           (if r_done_closed s
            then Some (s\<lparr>r_goroutines :=
                           (r_goroutines s)[k := (fst (r_goroutines s ! k), A_exiting)],
                         r_ops := r_ops s @ [(G k, Recv, DONE)]\<rparr>)
            else None)
         else None)
      else None)"

definition racer_step :: "nat \<Rightarrow> event \<Rightarrow> racer \<Rightarrow> racer option" where
  \<comment> \<open>a panic stops the program, and so does the return of \<open>main\<close>\<close>
  "racer_step n e s =
     (if r_panicked s \<noteq> None \<or> r_pc s = R_return then None
      else case e of Main \<Rightarrow> racer_main n s | Go k \<Rightarrow> racer_go k s
           | Select k c \<Rightarrow> racer_select k c s)"


text \<open>The facts that hold in every state this program reaches, and a bound on its steps.\<close>

definition racer_shape :: "nat \<Rightarrow> racer \<Rightarrow> bool" where
  "racer_shape n s \<longleftrightarrow>
     r_panicked s = None \<and>
     (case r_pc s of R_spawn i \<Rightarrow> length (r_goroutines s) = i \<and> i \<le> n
        | _ \<Rightarrow> length (r_goroutines s) = n) \<and>
     (r_done_closed s \<longleftrightarrow> r_pc s \<in> {R_sleep, R_return})"

definition racer_ops :: "racer \<Rightarrow> bool" where
  "racer_ops s \<longleftrightarrow>
     (\<forall>x\<in>set (r_ops s). snd (snd x) = DONE \<longrightarrow>
        (\<exists>k. x = (G k, Recv, DONE)) \<or> x = (MainG, Close, DONE)) \<and>
     count_list (r_ops s) (MainG, Close, DONE) = (if r_done_closed s then 1 else 0)"




section \<open>\<open>Query\<close>: the first response of several connections (go\_exp.go, lines 436--447)\<close>

text \<open>
  \<open>Query\<close> starts one goroutine per connection and then receives from the unbuffered
  \<open>ch\<close>. A goroutine evaluates \<open>c.DoQuery(query)\<close> and then runs a \<open>select\<close> with the
  send of the value as its only case and a \<open>default\<close>: the send is taken when the receiver
  is waiting at that moment, the \<open>default\<close> otherwise, so this \<open>select\<close> never waits and
  the schedule has no choice in it. The types \<open>Conn\<close> and \<open>Result\<close> and the method
  \<open>DoQuery\<close> are not declared in the file: they are the type parameters \<open>'c\<close> and \<open>'r\<close>
  and the parameter \<open>DoQuery\<close>, taken to return. The goroutines go on after \<open>Query\<close> has
  returned.
\<close>

datatype ('c, 'r) query_goroutine_pc =
    Q_call 'c       \<comment> \<open>line 441, before \<open>c.DoQuery(query)\<close> has returned\<close>
  | Q_select 'r     \<comment> \<open>line 440, the value computed, choosing between send and \<open>default\<close>\<close>
  | Q_end

datatype 'r query_pc =
    Q_range nat     \<comment> \<open>line 438, the index of the \<open>range\<close> loop\<close>
  | Q_recv          \<comment> \<open>line 446, waiting in \<open><-ch\<close>\<close>
  | Q_return 'r     \<comment> \<open>returned the value received\<close>

record ('c, 'r) query =
  q_pc :: "'r query_pc"
  q_goroutines :: "('c, 'r) query_goroutine_pc list"
  q_ops :: "chan_event list"

definition query_init :: "('c, 'r) query" where
  "query_init = \<lparr>q_pc = Q_range 0, q_goroutines = [], q_ops = []\<rparr>"

definition Query_main :: "'c list \<Rightarrow> ('c, 'r) query \<Rightarrow> ('c, 'r) query option" where
  "Query_main conns s =
     (case q_pc s of
        Q_range i \<Rightarrow>
          if i < length conns
          then Some (s\<lparr>q_goroutines := q_goroutines s @ [Q_call (conns ! i)],
                       q_pc := Q_range (i + 1)\<rparr>)
          else Some (s\<lparr>q_pc := Q_recv\<rparr>)
      | Q_recv \<Rightarrow> None
      | Q_return r \<Rightarrow> None)"

definition Query_go ::
  "('c \<Rightarrow> string \<Rightarrow> 'r) \<Rightarrow> string \<Rightarrow> nat \<Rightarrow> ('c, 'r) query \<Rightarrow> ('c, 'r) query option" where
  "Query_go DoQuery query k s =
     (if k < length (q_goroutines s) then
        (case q_goroutines s ! k of
           Q_call c \<Rightarrow>
             Some (s\<lparr>q_goroutines := (q_goroutines s)[k := Q_select (DoQuery c query)]\<rparr>)
         | Q_select r \<Rightarrow>
             if q_pc s = Q_recv
             then Some (s\<lparr>q_pc := Q_return r,
                          q_goroutines := (q_goroutines s)[k := Q_end],
                          q_ops := q_ops s @ [(G k, Send, CH), (MainG, Recv, CH)]\<rparr>)
             else Some (s\<lparr>q_goroutines := (q_goroutines s)[k := Q_end]\<rparr>)
         | Q_end \<Rightarrow> None)
      else None)"

definition Query_step ::
  "('c \<Rightarrow> string \<Rightarrow> 'r) \<Rightarrow> 'c list \<Rightarrow> string \<Rightarrow> event \<Rightarrow> ('c, 'r) query
     \<Rightarrow> ('c, 'r) query option" where
  "Query_step DoQuery conns query e s =
     (case e of Main \<Rightarrow> Query_main conns s | Go k \<Rightarrow> Query_go DoQuery query k s
      | Select k c \<Rightarrow> None)"

definition Query_result :: "('c, 'r) query \<Rightarrow> 'r option" where
  \<comment> \<open>what \<open>Query\<close> has returned, if it has\<close>
  "Query_result s = (case q_pc s of Q_return r \<Rightarrow> Some r | _ \<Rightarrow> None)"


section \<open>Goroutines started in a \<open>range\<close> loop (go\_exp.go, lines 306--339)\<close>

text \<open>
  Both programs range over \<open>data\<close> with one loop variable \<open>v\<close>, start a goroutine in each
  iteration, sleep and return. In the first the function literal has no parameter and
  prints \<open>v\<close>, the variable it shares with the loop, read when the goroutine runs. In the
  second the literal has a parameter \<open>in\<close>, bound to the value of \<open>v\<close> when the \<open>go\<close>
  statement runs. The source's \<open>data\<close> is \<open>one, two, three\<close>; here it is a parameter. A
  line printed is recorded with the number of the goroutine that printed it. Reads and
  writes of \<open>v\<close> are taken to be atomic and interleaved.
\<close>

datatype fan_pc =
    F_range nat     \<comment> \<open>the \<open>range\<close> clause, about to assign element \<open>i\<close> to \<open>v\<close>\<close>
  | F_go nat        \<comment> \<open>the \<open>go\<close> statement of iteration \<open>i\<close>\<close>
  | F_sleep
  | F_return

datatype 'a fan_goroutine_pc = U_start 'a | U_end

record 'a fan =
  f_pc :: fan_pc
  f_v :: string
  f_goroutines :: "'a fan_goroutine_pc list"
  f_out :: "(nat \<times> string) list"

definition fan_init :: "'a fan" where
  "fan_init = \<lparr>f_pc = F_range 0, f_v = [], f_goroutines = [], f_out = []\<rparr>"

definition fan_main :: "(string \<Rightarrow> 'a) \<Rightarrow> string list \<Rightarrow> 'a fan \<Rightarrow> 'a fan option" where
  \<comment> \<open>\<open>given\<close> says what the new goroutine gets of \<open>v\<close> at the \<open>go\<close> statement\<close>
  "fan_main given data s =
     (case f_pc s of
        F_range i \<Rightarrow>
          if i < length data then Some (s\<lparr>f_v := data ! i, f_pc := F_go i\<rparr>)
          else Some (s\<lparr>f_pc := F_sleep\<rparr>)
      | F_go i \<Rightarrow>
          Some (s\<lparr>f_goroutines := f_goroutines s @ [U_start (given (f_v s))],
                  f_pc := F_range (i + 1)\<rparr>)
      | F_sleep \<Rightarrow> Some (s\<lparr>f_pc := F_return\<rparr>)
      | F_return \<Rightarrow> None)"

definition fan_go :: "('a \<Rightarrow> string \<Rightarrow> string) \<Rightarrow> nat \<Rightarrow> 'a fan \<Rightarrow> 'a fan option" where
  \<comment> \<open>\<open>shown\<close> says what the goroutine prints, from what it got and the current \<open>v\<close>\<close>
  "fan_go shown k s =
     (if k < length (f_goroutines s) then
        (case f_goroutines s ! k of
           U_start x \<Rightarrow>
             Some (s\<lparr>f_out := f_out s @ [(k, shown x (f_v s))],
                     f_goroutines := (f_goroutines s)[k := U_end]\<rparr>)
         | U_end \<Rightarrow> None)
      else None)"

definition fan_step ::
  "(string \<Rightarrow> 'a) \<Rightarrow> ('a \<Rightarrow> string \<Rightarrow> string) \<Rightarrow> string list \<Rightarrow> event \<Rightarrow> 'a fan
     \<Rightarrow> 'a fan option" where
  "fan_step given shown data e s =
     (if f_pc s = F_return then None
      else case e of Main \<Rightarrow> fan_main given data s | Go k \<Rightarrow> fan_go shown k s
           | Select k c \<Rightarrow> None)"

definition captured_step :: "string list \<Rightarrow> event \<Rightarrow> unit fan \<Rightarrow> unit fan option" where
  \<comment> \<open>lines 306--317: \<open>go func() { fmt.Println(v) }()\<close>\<close>
  "captured_step = fan_step (\<lambda>v. ()) (\<lambda>x v. v)"

definition passed_step :: "string list \<Rightarrow> event \<Rightarrow> string fan \<Rightarrow> string fan option" where
  \<comment> \<open>lines 328--339: \<open>go func(in string) { fmt.Println(in) }(v)\<close>\<close>
  "passed_step = fan_step (\<lambda>v. v) (\<lambda>x v. x)"


text \<open>The facts that hold in every state of the two loops.\<close>

definition fan_shape :: "string list \<Rightarrow> 'a fan \<Rightarrow> bool" where
  "fan_shape data s \<longleftrightarrow>
     (case f_pc s of
        F_range i \<Rightarrow> length (f_goroutines s) = i \<and> i \<le> length data \<and>
                     (0 < i \<longrightarrow> f_v s = data ! (i - 1))
      | F_go i \<Rightarrow> length (f_goroutines s) = i \<and> i < length data \<and> f_v s = data ! i
      | _ \<Rightarrow> length (f_goroutines s) = length data \<and>
             (0 < length data \<longrightarrow> f_v s = data ! (length data - 1)))"

definition passed_own :: "string list \<Rightarrow> string fan \<Rightarrow> bool" where
  "passed_own data s \<longleftrightarrow>
     (\<forall>k<length (f_goroutines s). \<forall>x. f_goroutines s ! k = U_start x \<longrightarrow> x = data ! k) \<and>
     (\<forall>p\<in>set (f_out s). fst p < length data \<and> snd p = data ! fst p)"

definition captured_later :: "string list \<Rightarrow> unit fan \<Rightarrow> bool" where
  "captured_later data s \<longleftrightarrow>
     (\<forall>p\<in>set (f_out s). \<exists>j. fst p \<le> j \<and> j < length data \<and> snd p = data ! j)"


text \<open>A complete run of the pool as the source has it, with two workers and two items.\<close>

definition pool_schedule :: "event list" where
  "pool_schedule = [Main, Main, Main, Go 0, Select 0 0, Go 1, Select 1 0, Main, Main, Go 0, Go 1,
     Select 0 1, Select 1 1, Go 0, Go 1, Main, Main]"


text \<open>
  Concrete runs: the pool just before line 86; the program of lines 146--163 with its three
  goroutines; three connections whose answers are 21, 42 and 63, with three schedules of
  \<open>Query\<close>; and the two range loops on the source's \<open>data\<close>, every goroutine running
  after the loop has ended.
\<close>

definition pool_at_close :: pool where
  "pool_at_close =
     \<lparr>pc = P_close, workers = [(0, W_item 0), (1, W_item 1)], done_closed = False, wg = 2,
       out = [Running 0, Running 1],
       ops = [(MainG, Send, WQ), (G 0, Recv, WQ), (MainG, Send, WQ), (G 1, Recv, WQ)],
       panicked = None\<rparr>"

definition racer_schedule :: "event list" where
  "racer_schedule = [Main, Main, Main, Main, Select 1 0, Main, Go 1, Main, Select 0 1,
     Select 2 1, Go 0, Go 2, Main]"

definition conns3 :: "nat list" where
  "conns3 = [1, 2, 3]"

definition answer :: "nat \<Rightarrow> string \<Rightarrow> nat" where
  "answer c q = 21 * c"

definition query_waiting_first :: "event list" where
  \<comment> \<open>\<open>Query\<close> waits in its receive before any connection has answered; the second answers first\<close>
  "query_waiting_first = [Main, Main, Main, Main, Go 1, Go 1, Go 0, Go 2, Go 0, Go 2]"

definition query_answer_early :: "event list" where
  \<comment> \<open>the second connection answers while \<open>Query\<close> is still starting goroutines\<close>
  "query_answer_early = [Main, Main, Go 1, Go 1, Main, Main, Go 0, Go 2, Go 0, Go 2]"

definition query_all_early :: "event list" where
  \<comment> \<open>all three connections answer before \<open>Query\<close> reaches its receive\<close>
  "query_all_early = [Main, Main, Main, Go 1, Go 1, Go 0, Go 0, Go 2, Go 2, Main]"

definition query_returned :: "(nat, nat) query" where
  \<comment> \<open>\<open>Query\<close> has returned 42; the first and the third goroutine have their values\<close>
  "query_returned =
     \<lparr>q_pc = Q_return 42, q_goroutines = [Q_select 21, Q_end, Q_select 63],
       q_ops = [(G 1, Send, CH), (MainG, Recv, CH)]\<rparr>"

definition numbers :: "string list" where
  "numbers = [''one'', ''two'', ''three'']"

definition after_loop :: "event list" where
  "after_loop = [Main, Main, Main, Main, Main, Main, Main, Go 0, Go 1, Go 2]"



section \<open>Results\<close>

subsection \<open>Slices\<close>

lemma append_in_place:
  assumes "len s + length bs \<le> cap s"
  shows "arr (fst (append_bytes spare h s bs)) = arr s
    \<and> length (snd (append_bytes spare h s bs)) = length h"
  using assms by (simp add: append_bytes_def)

lemma append_allocates:
  assumes "cap s < len s + length bs"
  shows "arr (fst (append_bytes spare h s bs)) = length h
    \<and> snd (append_bytes spare h s bs) = h @ [contents h s @ bs @ replicate spare (CHR 0x00)]"
  using assms by (simp add: append_bytes_def alloc_def)

lemma reslice_full_cap:
  assumes "reslice_full s 0 hi hi = Some t"
  shows "cap t = len t \<and> arr t = arr s"
  using assms by (auto simp: reslice_full_def split: if_splits)

text \<open>
  C9. In the path-splitting code, with \<open>dir1\<close> taken as the plain reslice
  \<open>path[:sepIndex]\<close>, \<open>dir1\<close> has the capacity of \<open>path\<close>, so appending \<open>suffix\<close> writes
  into the one shared array (no array is allocated, \<open>dir1\<close> still points into the array of
  \<open>path\<close>): \<open>dir1\<close> reads \<open>AAAAsuffix\<close>, \<open>dir2\<close> changes from \<open>BBBBBBBBB\<close> to
  \<open>uffixBBBB\<close>, the bytes of the original path are overwritten and the new path is
  \<open>AAAAsuffix/uffixBBBB\<close>. With the full slice expression \<open>path[:sepIndex:sepIndex]\<close>,
  \<open>dir1\<close> has capacity 4, its length, so the append allocates a second array and \<open>dir1\<close>
  points into it: \<open>dir1\<close> reads \<open>AAAAsuffix\<close>, and \<open>dir2\<close> and the bytes of the
  original path stay as they were. This holds whatever spare capacity the runtime gives
  its allocations.
\<close>

theorem C9_append_aliasing:
  "main_reslice spare =
     Some \<lparr>printed = [''dir1 => AAAA'', ''dir2 => BBBBBBBBB'', ''dir1 => AAAAsuffix'',
                      ''dir2 => uffixBBBB'', ''new path => AAAAsuffix/uffixBBBB''],
           dir1_cap = 14 + spare, dir1_array = 0, path_array = 0, arrays_after_append = 1,
           dir1_end = ''AAAAsuffix'', dir2_end = ''uffixBBBB'',
           path_bytes_end = ''AAAAsuffixBBBB''\<rparr>
   \<and> main_full_slice spare =
     Some \<lparr>printed = [''dir1 => AAAA'', ''dir2 => BBBBBBBBB'', ''dir1 => AAAAsuffix'',
                      ''dir2 => BBBBBBBBB'', ''new path => AAAAsuffix/BBBBBBBBB''],
           dir1_cap = 4, dir1_array = 1, path_array = 0, arrays_after_append = 2,
           dir1_end = ''AAAAsuffix'', dir2_end = ''BBBBBBBBB'',
           path_bytes_end = ''AAAA/BBBBBBBBB''\<rparr>"
proof
  show "main_reslice spare =
     Some \<lparr>printed = [''dir1 => AAAA'', ''dir2 => BBBBBBBBB'', ''dir1 => AAAAsuffix'',
                      ''dir2 => uffixBBBB'', ''new path => AAAAsuffix/uffixBBBB''],
           dir1_cap = 14 + spare, dir1_array = 0, path_array = 0, arrays_after_append = 1,
           dir1_end = ''AAAAsuffix'', dir2_end = ''uffixBBBB'',
           path_bytes_end = ''AAAAsuffixBBBB''\<rparr>"
    by (simp add: main_reslice_def alloc_def IndexByte_def reslice_def reslice_from_def
        append_bytes_def Join_def contents_def Let_def)
  show "main_full_slice spare =
     Some \<lparr>printed = [''dir1 => AAAA'', ''dir2 => BBBBBBBBB'', ''dir1 => AAAAsuffix'',
                      ''dir2 => BBBBBBBBB'', ''new path => AAAAsuffix/BBBBBBBBB''],
           dir1_cap = 4, dir1_array = 1, path_array = 0, arrays_after_append = 2,
           dir1_end = ''AAAAsuffix'', dir2_end = ''BBBBBBBBB'',
           path_bytes_end = ''AAAA/BBBBBBBBB''\<rparr>"
    by (simp add: main_full_slice_def alloc_def IndexByte_def reslice_full_def reslice_def
        reslice_from_def append_bytes_def Join_def contents_def Let_def)
qed

subsection \<open>Interfaces\<close>

text \<open>
  C10. For every argument \<open>arg \<le> 0\<close> the first closure returns an interface value that
  wraps a nil \<open>*struct{}\<close> pointer and is not equal to \<open>nil\<close> (so the caller's
  \<open>res != nil\<close> branch runs, printing \<open>good result: <nil>\<close>); the variant returning the
  literal \<open>nil\<close> yields an interface equal to \<open>nil\<close>.
\<close>

theorem C10_typed_nil_interface:
  assumes "sint arg \<le> 0"
  shows "doit_typed a arg \<noteq> NilIface \<and> held (doit_typed a arg) = Some NilPtr
         \<and> doit_explicit a arg = NilIface
         \<and> main_typed a = [''good result: <nil>'']
         \<and> main_explicit a = [''bad result (res is nil)'']"
  using assms
  by (simp add: doit_typed_def doit_explicit_def main_typed_def main_explicit_def
      show_iface_def)

theorem C10_typed_nil_interface_witness:
  "sint (- 1 :: 64 word) \<le> 0
   \<and> doit_typed 0 (- 1) \<noteq> NilIface \<and> held (doit_typed 0 (- 1)) = Some NilPtr
   \<and> doit_explicit 0 (- 1) = NilIface"
  using C10_typed_nil_interface [of "- 1" 0] by simp

subsection \<open>Runs and the worker pool\<close>

lemma run_invariant:
  assumes "run step es s = Some t" and "P s"
    and "\<And>e a b. P a \<Longrightarrow> step e a = Some b \<Longrightarrow> P b"
  shows "P t"
  using assms(1,2)
proof (induction es arbitrary: s)
  case Nil
  then show ?case by simp
next
  case (Cons e es)
  then show ?case by (auto split: option.splits intro: assms(3))
qed

lemma upd_mset:
  assumes "k < length ws"
  obtains R where "mset ws = add_mset (ws ! k) R" and "mset (ws[k := v]) = add_mset v R"
proof
  show "mset ws = add_mset (ws ! k) (mset ws - {#ws ! k#})"
    using assms by simp
  show "mset (ws[k := v]) = add_mset v (mset ws - {#ws ! k#})"
    using assms by (rule mset_update)
qed

lemma upd_worker:
  assumes "k < length ws" and "ws ! k = (w, p)"
  obtains R where "mset ws = add_mset (w, p) R"
    and "mset (ws[k := (w, q)]) = add_mset (w, q) R"
    and "map fst (ws[k := (w, q)]) = map fst ws"
    and "set ws = insert (w, p) (set_mset R)"
    and "set (ws[k := (w, q)]) = insert (w, q) (set_mset R)"
proof -
  obtain R where R: "mset ws = add_mset (ws ! k) R" "mset (ws[k := (w, q)]) = add_mset (w, q) R"
    using upd_mset [OF assms(1)] by blast
  have "map fst (ws[k := (w, q)]) = (map fst ws)[k := fst (ws ! k)]"
    by (simp add: map_update assms(2))
  also have "\<dots> = map fst ws"
    using assms(1) by (metis length_map list_update_id nth_map)
  finally have m: "map fst (ws[k := (w, q)]) = map fst ws" .
  have s1: "set ws = insert (w, p) (set_mset R)"
    using R(1) assms(2) by (metis set_mset_add_mset_insert set_mset_mset)
  have s2: "set (ws[k := (w, q)]) = insert (w, q) (set_mset R)"
    using R(2) by (metis set_mset_add_mset_insert set_mset_mset)
  show thesis using that R m s1 s2 assms(2) by simp
qed


lemma pool_step_cases [consumes 1, case_names spawn spawned sent close wait println
    running item isdone recv_item recv_done]:
  assumes "pool_step n m e s = Some s'"
  obtains
    (spawn) i where "e = Main" "pc s = P_spawn i" "i < n"
      "s' = s\<lparr>wg := wg s + 1, workers := workers s @ [(i, W_running)], pc := P_spawn (i + 1)\<rparr>"
  | (spawned) i where "e = Main" "pc s = P_spawn i" "\<not> i < n" "s' = s\<lparr>pc := P_send 0\<rparr>"
  | (sent) i where "e = Main" "pc s = P_send i" "\<not> i < m" "s' = s\<lparr>pc := P_close\<rparr>"
  | (close) "e = Main" "pc s = P_close" "s' = (close_done s)\<lparr>pc := P_wait\<rparr>"
  | (wait) "e = Main" "pc s = P_wait" "wg s = 0" "s' = s\<lparr>pc := P_println\<rparr>"
  | (println) "e = Main" "pc s = P_println" "s' = s\<lparr>out := out s @ [AllDone], pc := P_return\<rparr>"
  | (running) k w ws' R where "e = Go k" "k < length (workers s)"
      "s' = s\<lparr>out := out s @ [Running w], workers := ws'\<rparr>"
      "mset (workers s) = add_mset (w, W_running) R" "mset ws' = add_mset (w, W_select) R"
      "set (workers s) = insert (w, W_running) (set_mset R)"
      "set ws' = insert (w, W_select) (set_mset R)" "map fst ws' = map fst (workers s)" "length ws' = length (workers s)"
  | (item) k w v ws' R where "e = Go k" "k < length (workers s)"
      "s' = s\<lparr>out := out s @ [Item w v], workers := ws'\<rparr>"
      "mset (workers s) = add_mset (w, W_item v) R" "mset ws' = add_mset (w, W_select) R"
      "set (workers s) = insert (w, W_item v) (set_mset R)"
      "set ws' = insert (w, W_select) (set_mset R)" "map fst ws' = map fst (workers s)" "length ws' = length (workers s)"
      "workers s ! k = (w, W_item v)"
  | (isdone) k w ws' R where "e = Go k" "k < length (workers s)"
      "s' = wg_done (s\<lparr>out := out s @ [IsDone w], workers := ws'\<rparr>)"
      "mset (workers s) = add_mset (w, W_done) R" "mset ws' = add_mset (w, W_exit) R"
      "set (workers s) = insert (w, W_done) (set_mset R)"
      "set ws' = insert (w, W_exit) (set_mset R)" "map fst ws' = map fst (workers s)" "length ws' = length (workers s)"
  | (recv_item) k w i ws' R where "e = Select k 0" "k < length (workers s)"
      "pc s = P_send i" "i < m"
      "s' = s\<lparr>pc := P_send (i + 1), workers := ws',
                ops := ops s @ [(MainG, Send, WQ), (G k, Recv, WQ)]\<rparr>"
      "mset (workers s) = add_mset (w, W_select) R" "mset ws' = add_mset (w, W_item i) R"
      "set (workers s) = insert (w, W_select) (set_mset R)"
      "set ws' = insert (w, W_item i) (set_mset R)" "map fst ws' = map fst (workers s)" "length ws' = length (workers s)"
  | (recv_done) k w ws' R where "e = Select k 1" "k < length (workers s)" "done_closed s"
      "s' = s\<lparr>workers := ws', ops := ops s @ [(G k, Recv, DONE)]\<rparr>"
      "mset (workers s) = add_mset (w, W_select) R" "mset ws' = add_mset (w, W_done) R"
      "set (workers s) = insert (w, W_select) (set_mset R)"
      "set ws' = insert (w, W_done) (set_mset R)" "map fst ws' = map fst (workers s)" "length ws' = length (workers s)"
proof (cases e)
  case Main
  with assms show ?thesis
    by (auto simp: pool_step_def pool_main_def split: pool_pc.splits if_splits
        intro: spawn spawned sent close wait println)
next
  case (Go k)
  with assms have k: "k < length (workers s)"
    by (auto simp: pool_step_def doit_def split: if_splits)
  obtain w p where wp: "workers s ! k = (w, p)" by (cases "workers s ! k")
  show ?thesis
  proof (cases p)
    case W_running
    from upd_worker [OF k wp, of W_select] obtain R where
      "mset (workers s) = add_mset (w, p) R"
      "mset ((workers s)[k := (w, W_select)]) = add_mset (w, W_select) R"
      "map fst ((workers s)[k := (w, W_select)]) = map fst (workers s)"
      "set (workers s) = insert (w, p) (set_mset R)"
      "set ((workers s)[k := (w, W_select)]) = insert (w, W_select) (set_mset R)"
      by blast
    with assms Go k wp W_running show ?thesis
      by (intro running [where k=k and w=w and ws'="(workers s)[k := (w, W_select)]" and R=R])
         (auto simp: pool_step_def doit_def split: if_splits)
  next
    case W_select
    with assms Go k wp show ?thesis
      by (auto simp: pool_step_def doit_def split: if_splits)
  next
    case (W_item v)
    from upd_worker [OF k wp, of W_select] obtain R where
      "mset (workers s) = add_mset (w, p) R"
      "mset ((workers s)[k := (w, W_select)]) = add_mset (w, W_select) R"
      "map fst ((workers s)[k := (w, W_select)]) = map fst (workers s)"
      "set (workers s) = insert (w, p) (set_mset R)"
      "set ((workers s)[k := (w, W_select)]) = insert (w, W_select) (set_mset R)"
      by blast
    with assms Go k wp W_item show ?thesis
      by (intro item [where k=k and w=w and v=v and ws'="(workers s)[k := (w, W_select)]" and R=R])
         (auto simp: pool_step_def doit_def split: if_splits)
  next
    case W_done
    from upd_worker [OF k wp, of W_exit] obtain R where
      "mset (workers s) = add_mset (w, p) R"
      "mset ((workers s)[k := (w, W_exit)]) = add_mset (w, W_exit) R"
      "map fst ((workers s)[k := (w, W_exit)]) = map fst (workers s)"
      "set (workers s) = insert (w, p) (set_mset R)"
      "set ((workers s)[k := (w, W_exit)]) = insert (w, W_exit) (set_mset R)"
      by blast
    with assms Go k wp W_done show ?thesis
      by (intro isdone [where k=k and w=w and ws'="(workers s)[k := (w, W_exit)]" and R=R])
         (auto simp: pool_step_def doit_def split: if_splits)
  next
    case W_exit
    with assms Go k wp show ?thesis
      by (auto simp: pool_step_def doit_def split: if_splits)
  qed
next
  case (Select k c)
  with assms have k: "k < length (workers s)"
    by (auto simp: pool_step_def doit_select_def split: if_splits)
  from assms Select obtain w where wp: "workers s ! k = (w, W_select)"
    by (cases "workers s ! k") (auto simp: pool_step_def doit_select_def split: if_splits)
  from assms Select have "c = 0 \<or> c = 1"
    by (auto simp: pool_step_def doit_select_def split: if_splits)
  then show ?thesis
  proof
    assume c: "c = 0"
    with assms Select k wp obtain i where i: "pc s = P_send i" "i < m"
      by (auto simp: pool_step_def doit_select_def split: if_splits pool_pc.splits)
    from upd_worker [OF k wp, of "W_item i"] obtain R where
      "mset (workers s) = add_mset (w, W_select) R"
      "mset ((workers s)[k := (w, W_item i)]) = add_mset (w, W_item i) R"
      "map fst ((workers s)[k := (w, W_item i)]) = map fst (workers s)"
      "set (workers s) = insert (w, W_select) (set_mset R)"
      "set ((workers s)[k := (w, W_item i)]) = insert (w, W_item i) (set_mset R)"
      by blast
    with assms Select k wp c i show ?thesis
      by (intro recv_item [where k=k and w=w and i=i and ws'="(workers s)[k := (w, W_item i)]" and R=R])
         (auto simp: pool_step_def doit_select_def split: if_splits)
  next
    assume c: "c = 1"
    with assms Select k wp have d: "done_closed s"
      by (auto simp: pool_step_def doit_select_def split: if_splits)
    from upd_worker [OF k wp, of W_done] obtain R where
      "mset (workers s) = add_mset (w, W_select) R"
      "mset ((workers s)[k := (w, W_done)]) = add_mset (w, W_done) R"
      "map fst ((workers s)[k := (w, W_done)]) = map fst (workers s)"
      "set (workers s) = insert (w, W_select) (set_mset R)"
      "set ((workers s)[k := (w, W_done)]) = insert (w, W_done) (set_mset R)"
      by blast
    with assms Select k wp c d show ?thesis
      by (intro recv_done [where k=k and w=w and ws'="(workers s)[k := (w, W_done)]" and R=R])
         (auto simp: pool_step_def doit_select_def split: if_splits)
  qed
qed

lemma executed_append: "executed (xs @ ys) = executed xs @ executed ys"
  by (induction xs rule: executed.induct) simp_all

lemma pool_shape_init: "pool_shape n m pool_init"
  by (simp add: pool_shape_def pool_init_def)

lemma pool_shape_step:
  assumes "pool_shape n m s" and "pool_step n m e s = Some s'"
  shows "pool_shape n m s'"
  using assms(2)
proof (cases rule: pool_step_cases)
  case close
  with assms(1) show ?thesis by (auto simp: pool_shape_def close_done_def close_chan_def)
next
  case (isdone k w)
  with assms(1) show ?thesis
    by (auto simp: pool_shape_def wg_done_def split: pool_pc.splits)
qed (use assms(1) in \<open>auto simp: pool_shape_def split: pool_pc.splits\<close>)

lemma pool_items_init: "pool_items n m pool_init"
  by (simp add: pool_items_def pool_init_def sent_def holding_def)

lemma worker_id_bound:
  assumes "pool_shape n m s" and "k < length (workers s)"
  shows "fst (workers s ! k) = k \<and> k < n"
proof -
  from assms(1) have "map fst (workers s) = [0..<length (workers s)]"
    and "length (workers s) \<le> n"
    by (auto simp: pool_shape_def split: pool_pc.splits)
  with assms(2) show ?thesis by (metis add_0 less_le_trans nth_map nth_upt)
qed

lemma pool_items_step:
  assumes "pool_shape n m s" and "pool_items n m s" and "pool_step n m e s = Some s'"
  shows "pool_items n m s'"
  using assms(3)
proof (cases rule: pool_step_cases)
  case close
  with assms(2) show ?thesis by (auto simp: pool_items_def sent_def close_done_def close_chan_def)
next
  case (item k w v ws' R)
  from worker_id_bound [OF assms(1) item(2)] item(10) have "w < n" by simp
  with assms(2) item show ?thesis
    by (auto simp: pool_items_def sent_def holding_def executed_append)
next
  case (isdone k w ws' R)
  with assms(2) show ?thesis
    by (auto simp: pool_items_def sent_def holding_def executed_append wg_done_def)
next
  case (sent i)
  with assms(1,2) show ?thesis
    by (auto simp: pool_items_def pool_shape_def sent_def)
qed (use assms(2) in \<open>auto simp: pool_items_def sent_def holding_def executed_append\<close>)

lemma pool_ops_init: "pool_ops pool_init"
  by (simp add: pool_ops_def pool_init_def)

lemma pool_ops_step:
  assumes "pool_shape n m s" and "pool_ops s" and "pool_step n m e s = Some s'"
  shows "pool_ops s'"
  using assms(3)
proof (cases rule: pool_step_cases)
  case close
  with assms(1,2) show ?thesis
    by (auto simp: pool_ops_def pool_shape_def close_done_def close_chan_def)
next
  case (isdone k w ws' R)
  with assms(2) show ?thesis by (auto simp: pool_ops_def wg_done_def)
qed (use assms(2) in \<open>auto simp: pool_ops_def\<close>)

lemma pool_rank_step:
  assumes "pool_shape n m s" and "pool_step n m e s = Some s'"
  shows "pool_rank n m s' < pool_rank n m s"
  using assms(2)
proof (cases rule: pool_step_cases)
  case close
  then show ?thesis by (auto simp: pool_rank_def close_done_def close_chan_def)
next
  case (isdone k w ws' R)
  then show ?thesis by (auto simp: pool_rank_def wg_done_def split: pool_pc.splits)
next
  case (spawned i)
  with assms(1) show ?thesis by (auto simp: pool_rank_def pool_shape_def)
qed (auto simp: pool_rank_def split: pool_pc.splits)


lemma enabledI:
  assumes "step e s \<noteq> None"
    and "e = Main \<or> (\<exists>i<k. e = Go i \<or> e = Select i 0 \<or> e = Select i 1)"
  shows "enabled step k s \<noteq> []"
proof -
  from assms(2) have "e \<in> set (Main # concat (map (\<lambda>i. [Go i, Select i 0, Select i 1]) [0..<k]))"
    by auto
  with assms(1) have "e \<in> set (enabled step k s)"
    unfolding enabled_def set_filter by blast
  then show ?thesis by auto
qed

lemma pool_progress:
  assumes "pool_shape n m s" and "0 < n" and "pc s \<noteq> P_return"
  shows "enabled (pool_step n m) n s \<noteq> []"
proof -
  from assms(1) have np: "panicked s = None" by (simp add: pool_shape_def)
  have worker_moves: "enabled (pool_step n m) n s \<noteq> []"
    if k: "k < length (workers s)" "length (workers s) = n"
      and alive: "snd (workers s ! k) \<noteq> W_exit"
      and sel: "snd (workers s ! k) = W_select \<Longrightarrow>
                  done_closed s \<or> (\<exists>i<m. pc s = P_send i)" for k
  proof (cases "snd (workers s ! k) = W_select")
    case True
    from sel [OF True] show ?thesis
    proof
      assume "done_closed s"
      with True k np assms(3) have "pool_step n m (Select k 1) s \<noteq> None"
        by (simp add: pool_step_def doit_select_def)
      then show ?thesis using k by (intro enabledI [of _ "Select k 1"]) auto
    next
      assume "\<exists>i<m. pc s = P_send i"
      with True k np assms(3) have "pool_step n m (Select k 0) s \<noteq> None"
        by (auto simp: pool_step_def doit_select_def)
      then show ?thesis using k by (intro enabledI [of _ "Select k 0"]) auto
    qed
  next
    case False
    with alive k np assms(3) have "pool_step n m (Go k) s \<noteq> None"
      by (cases "workers s ! k"; cases "snd (workers s ! k)")
         (auto simp: pool_step_def doit_def)
    then show ?thesis using k by (intro enabledI [of _ "Go k"]) auto
  qed
  have main_moves: "pool_step n m Main s \<noteq> None \<Longrightarrow> ?thesis"
    by (intro enabledI [of _ Main]) auto
  show ?thesis
  proof (cases "pc s")
    case (P_spawn i)
    with np show ?thesis by (intro main_moves) (simp add: pool_step_def pool_main_def)
  next
    case (P_send i)
    show ?thesis
    proof (cases "i < m")
      case True
      from assms(1) P_send have len: "length (workers s) = n" and nd: "\<not> done_closed s"
        and ws: "\<forall>w\<in>set (workers s). snd w \<notin> {W_done, W_exit}"
        by (auto simp: pool_shape_def)
      from len assms(2) have "workers s ! 0 \<in> set (workers s)" by simp
      with ws have "snd (workers s ! 0) \<noteq> W_exit" by auto
      with len assms(2) True P_send show ?thesis
        by (intro worker_moves [of 0]) auto
    next
      case False
      with np P_send show ?thesis
        by (intro main_moves) (simp add: pool_step_def pool_main_def)
    qed
  next
    case P_close
    with np show ?thesis by (intro main_moves) (simp add: pool_step_def pool_main_def)
  next
    case P_wait
    from assms(1) P_wait have len: "length (workers s) = n" and d: "done_closed s"
      and wg: "wg s = int (size (filter_mset (\<lambda>w. snd w \<noteq> W_exit) (mset (workers s))))"
      by (auto simp: pool_shape_def)
    show ?thesis
    proof (cases "wg s = 0")
      case True
      with np P_wait show ?thesis
        by (intro main_moves) (simp add: pool_step_def pool_main_def)
    next
      case False
      with wg obtain w where "w \<in> set (workers s)" "snd w \<noteq> W_exit"
        by auto
      then obtain k where "k < length (workers s)" "snd (workers s ! k) \<noteq> W_exit"
        by (auto simp: in_set_conv_nth)
      with len d show ?thesis by (intro worker_moves [of k]) auto
    qed
  next
    case P_println
    with np show ?thesis by (intro main_moves) (simp add: pool_step_def pool_main_def)
  next
    case P_return
    with assms(3) show ?thesis by simp
  qed
qed

lemma pool_run_invariants:
  assumes "run (pool_step n m) es pool_init = Some s"
  shows "pool_shape n m s \<and> pool_items n m s \<and> pool_ops s"
  by (rule run_invariant [OF assms])
     (auto simp: pool_shape_init pool_items_init pool_ops_init
        intro: pool_shape_step pool_items_step pool_ops_step)

lemma run_bounded:
  assumes "run step es s = Some t"
    and "\<And>a. run_ok a \<Longrightarrow> (\<forall>e b. step e a = Some b \<longrightarrow> run_ok b \<and> rank b < (rank a :: nat))"
    and "run_ok s"
  shows "length es + rank t \<le> rank s"
  using assms(1,3)
proof (induction es arbitrary: s)
  case Nil
  then show ?case by simp
next
  case (Cons e es)
  from Cons.prems(1) obtain u where u: "step e s = Some u" "run step es u = Some t"
    by (auto split: option.splits)
  from assms(2) [OF Cons.prems(2)] u(1) have "run_ok u" "rank u < rank s" by auto
  with Cons.IH [OF u(2)] show ?case by simp
qed

lemma pool_run_length:
  assumes "run (pool_step n m) es pool_init = Some s"
  shows "length es \<le> 4 * n + 2 * m + 5"
proof -
  have "length es + pool_rank n m s \<le> pool_rank n m pool_init"
    by (rule run_bounded [OF assms, where run_ok = "pool_shape n m"])
       (auto simp: pool_shape_init intro: pool_shape_step pool_rank_step)
  then show ?thesis by (simp add: pool_rank_def pool_init_def)
qed

lemma count_upt: "count (mset [0..<k]) v = (if v < k then 1 else 0)"
  by (induction k) auto

lemma holding_exited: "\<forall>w\<in>set ws. snd w = W_exit \<Longrightarrow> holding ws = {#}"
  by (induction ws) (auto simp: holding_def)

text \<open>
  C1. For every number \<open>n \<ge> 1\<close> of workers and every number \<open>m\<close> of items, in every
  state the pool reaches under any schedule: nothing has panicked; no item has been printed
  twice; every item line comes from a worker of the pool and shows an item that was sent;
  \<open>done\<close> is closed only after all \<open>m\<close> items have been handed over; once \<open>main\<close>
  has returned, each of the \<open>m\<close> items has been printed exactly once; before that some
  goroutine can always move (no deadlock); and no schedule is longer than
  \<open>4 * n + 2 * m + 5\<close> steps, so every run ends, and it ends with \<open>main\<close> returned.
\<close>

theorem C1_pool_each_item_once:
  assumes "1 \<le> n" and "run (pool_step n m) es pool_init = Some s"
  shows "panicked s = None
    \<and> (\<forall>v. count_list (map snd (executed (out s))) v \<le> 1)
    \<and> (\<forall>p\<in>set (executed (out s)). fst p < n \<and> snd p < m)
    \<and> (done_closed s \<longrightarrow> sent m (pc s) = m)
    \<and> (pc s = P_return \<longrightarrow> (\<forall>v<m. count_list (map snd (executed (out s))) v = 1))
    \<and> (pc s \<noteq> P_return \<longrightarrow> enabled (pool_step n m) n s \<noteq> [])
    \<and> length es \<le> 4 * n + 2 * m + 5"
proof -
  from pool_run_invariants [OF assms(2)]
  have shape: "pool_shape n m s" and items: "pool_items n m s" by simp_all
  let ?xs = "map snd (executed (out s))"
  from items have eq: "mset ?xs + holding (workers s) = mset [0..<sent m (pc s)]"
    and ids: "\<forall>p\<in>set (executed (out s)). fst p < n"
    by (simp_all add: pool_items_def)
  from shape have le: "sent m (pc s) \<le> m"
    by (auto simp: pool_shape_def sent_def split: pool_pc.splits)
  have cnt: "count_list ?xs v + count (holding (workers s)) v
               = (if v < sent m (pc s) then 1 else 0)" for v
  proof -
    have "count (mset ?xs + holding (workers s)) v = count (mset [0..<sent m (pc s)]) v"
      by (simp only: eq)
    then show ?thesis by (simp add: count_upt count_mset del: mset_map)
  qed
  have once: "\<forall>v. count_list ?xs v \<le> 1"
  proof
    fix v
    from cnt [of v] show "count_list ?xs v \<le> 1" by (simp split: if_splits)
  qed
  have sub: "\<forall>p\<in>set (executed (out s)). snd p < m"
  proof
    fix p assume "p \<in> set (executed (out s))"
    then have "snd p \<in> set ?xs" by simp
    then have "0 < count_list ?xs (snd p)" by (metis count_list_0_iff not_gr_zero)
    with cnt [of "snd p"] le show "snd p < m" by (simp split: if_splits)
  qed
  have fin: "\<forall>v<m. count_list ?xs v = 1" if r: "pc s = P_return"
  proof (intro allI impI)
    fix v assume v: "v < m"
    from shape r have "\<forall>w\<in>set (workers s). snd w = W_exit" by (simp add: pool_shape_def)
    then have "holding (workers s) = {#}" by (rule holding_exited)
    with cnt [of v] v r show "count_list ?xs v = 1" by (simp add: sent_def)
  qed
  from shape have d: "done_closed s \<longrightarrow> sent m (pc s) = m"
    by (auto simp: pool_shape_def sent_def)
  from shape have "panicked s = None" by (simp add: pool_shape_def)
  moreover from assms(1) shape have "pc s \<noteq> P_return \<longrightarrow> enabled (pool_step n m) n s \<noteq> []"
    using pool_progress [of n m s] by simp
  ultimately show ?thesis
    using once ids sub fin d pool_run_length [OF assms(2)] by auto
qed

lemma pool_schedule_run:
  "run (pool_step 2 2) pool_schedule pool_init =
     Some \<lparr>pc = P_return, workers = [(0, W_exit), (1, W_exit)], done_closed = True, wg = 0,
       out = [Running 0, Running 1, Item 0 0, Item 1 1, IsDone 0, IsDone 1, AllDone],
       ops = [(MainG, Send, WQ), (G 0, Recv, WQ), (MainG, Send, WQ), (G 1, Recv, WQ),
              (MainG, Close, DONE), (G 0, Recv, DONE), (G 1, Recv, DONE)],
       panicked = None\<rparr>"
  by (simp add: pool_schedule_def pool_step_def pool_main_def doit_def doit_select_def
      pool_init_def close_done_def close_chan_def wg_done_def)

theorem C1_pool_each_item_once_witness:
  "(1::nat) \<le> 2
   \<and> run (pool_step 2 2) pool_schedule pool_init \<noteq> None
   \<and> pc (the (run (pool_step 2 2) pool_schedule pool_init)) = P_return
   \<and> executed (out (the (run (pool_step 2 2) pool_schedule pool_init))) = [(0, 0), (1, 1)]
   \<and> count_list (map snd (executed (out (the (run (pool_step 2 2) pool_schedule
          pool_init))))) 0 = 1
   \<and> count_list (map snd (executed (out (the (run (pool_step 2 2) pool_schedule
          pool_init))))) 1 = 1
   \<and> length pool_schedule \<le> 4 * 2 + 2 * 2 + 5"
  using C1_pool_each_item_once [of 2 2 pool_schedule, OF _ pool_schedule_run]
  by (simp add: pool_schedule_run)

subsection \<open>The program with the \<open>done\<close> channel\<close>

lemma upd_pair:
  assumes "k < length ws" and "ws ! k = (w, p)"
  obtains R where "mset ws = add_mset (w, p) R"
    and "mset (ws[k := (w, q)]) = add_mset (w, q) R"
    and "length (ws[k := (w, q)]) = length ws"
  using upd_worker [OF assms, of q] by (metis length_list_update)

lemma racer_step_cases [consumes 1, case_names spawn spawned println close sleep
    sent exiting send recv_done]:
  assumes "racer_step n e s = Some s'"
  obtains
    (spawn) i where "e = Main" "r_pc s = R_spawn i" "i < n"
      "s' = s\<lparr>r_goroutines := r_goroutines s @ [(i, A_select)], r_pc := R_spawn (i + 1)\<rparr>"
  | (spawned) i where "e = Main" "r_pc s = R_spawn i" "\<not> i < n" "s' = s\<lparr>r_pc := R_recv\<rparr>"
  | (println) v where "e = Main" "r_pc s = R_println v"
      "s' = s\<lparr>r_out := r_out s @ [Result v], r_pc := R_close\<rparr>"
  | (close) "e = Main" "r_pc s = R_close" "s' = (racer_close_done s)\<lparr>r_pc := R_sleep\<rparr>"
  | (sleep) "e = Main" "r_pc s = R_sleep" "s' = s\<lparr>r_pc := R_return\<rparr>"
  | (sent) k idx gs' R where "e = Go k" "k < length (r_goroutines s)"
      "s' = s\<lparr>r_out := r_out s @ [SentResult idx], r_goroutines := gs'\<rparr>"
      "mset (r_goroutines s) = add_mset (idx, A_sent) R" "mset gs' = add_mset (idx, A_end) R"
      "length gs' = length (r_goroutines s)"
  | (exiting) k idx gs' R where "e = Go k" "k < length (r_goroutines s)"
      "s' = s\<lparr>r_out := r_out s @ [Exiting idx], r_goroutines := gs'\<rparr>"
      "mset (r_goroutines s) = add_mset (idx, A_exiting) R" "mset gs' = add_mset (idx, A_end) R"
      "length gs' = length (r_goroutines s)"
  | (send) k idx gs' R where "e = Select k 0" "k < length (r_goroutines s)" "r_pc s = R_recv"
      "s' = s\<lparr>r_pc := R_println ((idx + 1) * 2), r_goroutines := gs',
                r_ops := r_ops s @ [(G k, Send, CH), (MainG, Recv, CH)]\<rparr>"
      "mset (r_goroutines s) = add_mset (idx, A_select) R" "mset gs' = add_mset (idx, A_sent) R"
      "length gs' = length (r_goroutines s)"
  | (recv_done) k idx gs' R where "e = Select k 1" "k < length (r_goroutines s)"
      "r_done_closed s"
      "s' = s\<lparr>r_goroutines := gs', r_ops := r_ops s @ [(G k, Recv, DONE)]\<rparr>"
      "mset (r_goroutines s) = add_mset (idx, A_select) R"
      "mset gs' = add_mset (idx, A_exiting) R" "length gs' = length (r_goroutines s)"
proof -
  from assms have alive: "r_panicked s = None" "r_pc s \<noteq> R_return"
    by (auto simp: racer_step_def split: if_splits)
  show ?thesis
  proof (cases e)
    case Main
    with assms alive have m: "racer_main n s = Some s'" by (simp add: racer_step_def)
    show ?thesis
    proof (cases "r_pc s")
      case (R_spawn i)
      show ?thesis
      proof (cases "i < n")
        case True
        with m R_spawn have "s' = s\<lparr>r_goroutines := r_goroutines s @ [(i, A_select)],
            r_pc := R_spawn (i + 1)\<rparr>"
          by (simp add: racer_main_def)
        with Main R_spawn True show ?thesis by (rule spawn)
      next
        case False
        with m R_spawn have "s' = s\<lparr>r_pc := R_recv\<rparr>" by (simp add: racer_main_def)
        with Main R_spawn False show ?thesis by (rule spawned)
      qed
    next
      case R_recv
      with m show ?thesis by (simp add: racer_main_def)
    next
      case (R_println v)
      with m have "s' = s\<lparr>r_out := r_out s @ [Result v], r_pc := R_close\<rparr>"
        by (simp add: racer_main_def)
      with Main R_println show ?thesis by (rule println)
    next
      case R_close
      with m have "s' = (racer_close_done s)\<lparr>r_pc := R_sleep\<rparr>" by (simp add: racer_main_def)
      with Main R_close show ?thesis by (rule close)
    next
      case R_sleep
      with m have "s' = s\<lparr>r_pc := R_return\<rparr>" by (simp add: racer_main_def)
      with Main R_sleep show ?thesis by (rule sleep)
    next
      case R_return
      with alive show ?thesis by simp
    qed
  next
    case (Go k)
    with assms alive have g: "racer_go k s = Some s'" by (simp add: racer_step_def)
    then have k: "k < length (r_goroutines s)" by (simp add: racer_go_def split: if_splits)
    obtain idx p where gp: "r_goroutines s ! k = (idx, p)" by (cases "r_goroutines s ! k")
    show ?thesis
    proof (cases p)
      case A_select
      with g k gp show ?thesis by (simp add: racer_go_def)
    next
      case A_sent
      with g k gp have eq: "s' = s\<lparr>r_out := r_out s @ [SentResult idx],
          r_goroutines := (r_goroutines s)[k := (idx, A_end)]\<rparr>"
        by (simp add: racer_go_def)
      from gp A_sent have "r_goroutines s ! k = (idx, A_sent)" by simp
      from upd_pair [OF k this, of A_end] obtain R where
        "mset (r_goroutines s) = add_mset (idx, A_sent) R"
        "mset ((r_goroutines s)[k := (idx, A_end)]) = add_mset (idx, A_end) R"
        "length ((r_goroutines s)[k := (idx, A_end)]) = length (r_goroutines s)"
        by blast
      with Go k eq show ?thesis by (rule sent)
    next
      case A_exiting
      with g k gp have eq: "s' = s\<lparr>r_out := r_out s @ [Exiting idx],
          r_goroutines := (r_goroutines s)[k := (idx, A_end)]\<rparr>"
        by (simp add: racer_go_def)
      from gp A_exiting have "r_goroutines s ! k = (idx, A_exiting)" by simp
      from upd_pair [OF k this, of A_end] obtain R where
        "mset (r_goroutines s) = add_mset (idx, A_exiting) R"
        "mset ((r_goroutines s)[k := (idx, A_end)]) = add_mset (idx, A_end) R"
        "length ((r_goroutines s)[k := (idx, A_end)]) = length (r_goroutines s)"
        by blast
      with Go k eq show ?thesis by (rule exiting)
    next
      case A_end
      with g k gp show ?thesis by (simp add: racer_go_def)
    qed
  next
    case (Select k c)
    with assms alive have g: "racer_select k c s = Some s'" by (simp add: racer_step_def)
    then have k: "k < length (r_goroutines s)" and sel: "snd (r_goroutines s ! k) = A_select"
      by (simp_all add: racer_select_def split: if_splits)
    then obtain idx where gp: "r_goroutines s ! k = (idx, A_select)"
      by (cases "r_goroutines s ! k") simp
    from g k sel have "c = 0 \<or> c = 1" by (simp add: racer_select_def split: if_splits)
    then show ?thesis
    proof
      assume c: "c = 0"
      with g k gp have pc: "r_pc s = R_recv" by (simp add: racer_select_def split: if_splits)
      with g k gp c have eq: "s' = s\<lparr>r_pc := R_println ((idx + 1) * 2),
          r_goroutines := (r_goroutines s)[k := (idx, A_sent)],
          r_ops := r_ops s @ [(G k, Send, CH), (MainG, Recv, CH)]\<rparr>"
        by (simp add: racer_select_def)
      from upd_pair [OF k gp, of A_sent] obtain R where
        "mset (r_goroutines s) = add_mset (idx, A_select) R"
        "mset ((r_goroutines s)[k := (idx, A_sent)]) = add_mset (idx, A_sent) R"
        "length ((r_goroutines s)[k := (idx, A_sent)]) = length (r_goroutines s)"
        by blast
      with Select [unfolded c] k pc eq show ?thesis by (rule send)
    next
      assume c: "c = 1"
      with g k gp have d: "r_done_closed s" by (simp add: racer_select_def split: if_splits)
      with g k gp c have eq: "s' = s\<lparr>r_goroutines := (r_goroutines s)[k := (idx, A_exiting)],
          r_ops := r_ops s @ [(G k, Recv, DONE)]\<rparr>"
        by (simp add: racer_select_def)
      from upd_pair [OF k gp, of A_exiting] obtain R where
        "mset (r_goroutines s) = add_mset (idx, A_select) R"
        "mset ((r_goroutines s)[k := (idx, A_exiting)]) = add_mset (idx, A_exiting) R"
        "length ((r_goroutines s)[k := (idx, A_exiting)]) = length (r_goroutines s)"
        by blast
      with Select [unfolded c] k d eq show ?thesis by (rule recv_done)
    qed
  qed
qed

lemma racer_shape_init: "racer_shape n racer_init"
  by (simp add: racer_shape_def racer_init_def)

lemma racer_shape_step:
  assumes "racer_shape n s" and "racer_step n e s = Some s'"
  shows "racer_shape n s'"
  using assms(2)
proof (cases rule: racer_step_cases)
  case close
  with assms(1) show ?thesis
    by (auto simp: racer_shape_def racer_close_done_def close_chan_def)
qed (use assms(1) in \<open>auto simp: racer_shape_def split: racer_pc.splits\<close>)

lemma racer_ops_init: "racer_ops racer_init"
  by (simp add: racer_ops_def racer_init_def)

lemma racer_ops_step:
  assumes "racer_shape n s" and "racer_ops s" and "racer_step n e s = Some s'"
  shows "racer_ops s'"
  using assms(3)
proof (cases rule: racer_step_cases)
  case close
  with assms(1,2) show ?thesis
    by (auto simp: racer_ops_def racer_shape_def racer_close_done_def close_chan_def)
qed (use assms(2) in \<open>auto simp: racer_ops_def\<close>)


lemma racer_run_invariants:
  assumes "run (racer_step n) es racer_init = Some s"
  shows "racer_shape n s \<and> racer_ops s"
  by (rule run_invariant [OF assms])
     (auto simp: racer_shape_init racer_ops_init intro: racer_shape_step racer_ops_step)


subsection \<open>The two range loops\<close>

lemma fan_step_cases [consumes 1, case_names assign ranged go sleep unit]:
  assumes "fan_step given shown data e s = Some s'"
  obtains
    (assign) i where "e = Main" "f_pc s = F_range i" "i < length data"
      "s' = s\<lparr>f_v := data ! i, f_pc := F_go i\<rparr>"
  | (ranged) i where "e = Main" "f_pc s = F_range i" "\<not> i < length data"
      "s' = s\<lparr>f_pc := F_sleep\<rparr>"
  | (go) i where "e = Main" "f_pc s = F_go i"
      "s' = s\<lparr>f_goroutines := f_goroutines s @ [U_start (given (f_v s))],
                f_pc := F_range (i + 1)\<rparr>"
  | (sleep) "e = Main" "f_pc s = F_sleep" "s' = s\<lparr>f_pc := F_return\<rparr>"
  | (unit) k x where "e = Go k" "k < length (f_goroutines s)" "f_goroutines s ! k = U_start x"
      "f_pc s \<noteq> F_return"
      "s' = s\<lparr>f_out := f_out s @ [(k, shown x (f_v s))],
                f_goroutines := (f_goroutines s)[k := U_end]\<rparr>"
proof -
  from assms have alive: "f_pc s \<noteq> F_return" by (auto simp: fan_step_def split: if_splits)
  show ?thesis
  proof (cases e)
    case Main
    with assms alive have m: "fan_main given data s = Some s'" by (simp add: fan_step_def)
    show ?thesis
    proof (cases "f_pc s")
      case (F_range i)
      show ?thesis
      proof (cases "i < length data")
        case True
        with m F_range have "s' = s\<lparr>f_v := data ! i, f_pc := F_go i\<rparr>"
          by (simp add: fan_main_def)
        with Main F_range True show ?thesis by (rule assign)
      next
        case False
        with m F_range have "s' = s\<lparr>f_pc := F_sleep\<rparr>" by (simp add: fan_main_def)
        with Main F_range False show ?thesis by (rule ranged)
      qed
    next
      case (F_go i)
      with m have "s' = s\<lparr>f_goroutines := f_goroutines s @ [U_start (given (f_v s))],
          f_pc := F_range (i + 1)\<rparr>"
        by (simp add: fan_main_def)
      with Main F_go show ?thesis by (rule go)
    next
      case F_sleep
      with m have "s' = s\<lparr>f_pc := F_return\<rparr>" by (simp add: fan_main_def)
      with Main F_sleep show ?thesis by (rule sleep)
    next
      case F_return
      with alive show ?thesis by simp
    qed
  next
    case (Go k)
    with assms alive have g: "fan_go shown k s = Some s'" by (simp add: fan_step_def)
    then have k: "k < length (f_goroutines s)" by (simp add: fan_go_def split: if_splits)
    show ?thesis
    proof (cases "f_goroutines s ! k")
      case (U_start x)
      with g k have "s' = s\<lparr>f_out := f_out s @ [(k, shown x (f_v s))],
          f_goroutines := (f_goroutines s)[k := U_end]\<rparr>"
        by (simp add: fan_go_def)
      with Go k U_start alive show ?thesis by (rule unit)
    next
      case U_end
      with g k show ?thesis by (simp add: fan_go_def)
    qed
  next
    case (Select k c)
    with assms show ?thesis by (simp add: fan_step_def split: if_splits)
  qed
qed

lemma fan_shape_init: "fan_shape data fan_init"
  by (simp add: fan_shape_def fan_init_def)

lemma fan_shape_step:
  assumes "fan_shape data s" and "fan_step given shown data e s = Some s'"
  shows "fan_shape data s'"
  using assms(2)
proof (cases rule: fan_step_cases)
  case (ranged i)
  with assms(1) show ?thesis by (auto simp: fan_shape_def)
qed (use assms(1) in \<open>auto simp: fan_shape_def split: fan_pc.splits\<close>)

lemma passed_own_init: "passed_own data fan_init"
  by (simp add: passed_own_def fan_init_def)

lemma passed_own_step:
  assumes "fan_shape data s" and "passed_own data s" and "passed_step data e s = Some s'"
  shows "passed_own data s'"
  using assms(3) unfolding passed_step_def
proof (cases rule: fan_step_cases)
  case (go i)
  with assms(1,2) show ?thesis
    by (auto simp: passed_own_def fan_shape_def nth_append less_Suc_eq)
next
  case (unit k x)
  from assms(1) unit(2) have "k < length data"
    by (auto simp: fan_shape_def split: fan_pc.splits)
  with assms(2) unit show ?thesis
    by (auto simp: passed_own_def nth_list_update)
qed (use assms(2) in \<open>auto simp: passed_own_def\<close>)

lemma captured_later_init: "captured_later data fan_init"
  by (simp add: captured_later_def fan_init_def)

lemma captured_reads:
  assumes "fan_shape data s" and "k < length (f_goroutines s)"
  shows "\<exists>j. k \<le> j \<and> j < length data \<and> f_v s = data ! j"
proof (cases "f_pc s")
  case (F_range i)
  with assms show ?thesis
    by (intro exI [of _ "i - 1"]) (auto simp: fan_shape_def)
next
  case (F_go i)
  with assms show ?thesis
    by (intro exI [of _ i]) (auto simp: fan_shape_def)
next
  case F_sleep
  with assms show ?thesis
    by (intro exI [of _ "length data - 1"]) (auto simp: fan_shape_def)
next
  case F_return
  with assms show ?thesis
    by (intro exI [of _ "length data - 1"]) (auto simp: fan_shape_def)
qed

lemma captured_later_step:
  assumes "fan_shape data s" and "captured_later data s" and "captured_step data e s = Some s'"
  shows "captured_later data s'"
  using assms(3) unfolding captured_step_def
proof (cases rule: fan_step_cases)
  case (unit k x)
  from captured_reads [OF assms(1) unit(2)] assms(2) unit show ?thesis
    by (auto simp: captured_later_def)
qed (use assms(2) in \<open>auto simp: captured_later_def\<close>)

lemma passed_run_invariants:
  assumes "run (passed_step data) es fan_init = Some s"
  shows "fan_shape data s \<and> passed_own data s"
  by (rule run_invariant [OF assms])
     (auto simp: fan_shape_init passed_own_init passed_step_def
        intro: fan_shape_step passed_own_step [unfolded passed_step_def])

lemma captured_run_invariants:
  assumes "run (captured_step data) es fan_init = Some s"
  shows "fan_shape data s \<and> captured_later data s"
  by (rule run_invariant [OF assms])
     (auto simp: fan_shape_init captured_later_init captured_step_def
        intro: fan_shape_step captured_later_step [unfolded captured_step_def])

subsection \<open>Concrete runs\<close>

lemma pool_at_close_run:
  "run (pool_step 2 2) (take 8 pool_schedule) pool_init = Some pool_at_close"
  by (simp add: pool_schedule_def pool_step_def pool_main_def doit_def doit_select_def
      pool_init_def pool_at_close_def)

lemma racer_schedule_run:
  "run (racer_step 3) racer_schedule racer_init =
     Some \<lparr>r_pc = R_return, r_goroutines = [(0, A_end), (1, A_end), (2, A_end)],
       r_done_closed = True, r_out = [Result 4, SentResult 1, Exiting 0, Exiting 2],
       r_ops = [(G 1, Send, CH), (MainG, Recv, CH), (MainG, Close, DONE), (G 0, Recv, DONE),
                (G 2, Recv, DONE)],
       r_panicked = None\<rparr>"
  by (simp add: racer_schedule_def racer_step_def racer_main_def racer_go_def racer_select_def
      racer_init_def racer_close_done_def close_chan_def)


lemma query_waiting_first_run:
  "run (Query_step answer conns3 ''q'') query_waiting_first query_init =
     Some \<lparr>q_pc = Q_return 42, q_goroutines = [Q_end, Q_end, Q_end],
       q_ops = [(G 1, Send, CH), (MainG, Recv, CH)]\<rparr>"
  by (simp add: query_waiting_first_def Query_step_def Query_main_def Query_go_def
      query_init_def conns3_def answer_def)

lemma query_answer_early_run:
  "run (Query_step answer conns3 ''q'') query_answer_early query_init =
     Some \<lparr>q_pc = Q_return 21, q_goroutines = [Q_end, Q_end, Q_end],
       q_ops = [(G 0, Send, CH), (MainG, Recv, CH)]\<rparr>"
  by (simp add: query_answer_early_def Query_step_def Query_main_def Query_go_def
      query_init_def conns3_def answer_def)

lemma query_all_early_run:
  "run (Query_step answer conns3 ''q'') query_all_early query_init =
     Some \<lparr>q_pc = Q_recv, q_goroutines = [Q_end, Q_end, Q_end], q_ops = []\<rparr>"
  by (simp add: query_all_early_def Query_step_def Query_main_def Query_go_def
      query_init_def conns3_def answer_def)

lemma captured_after_loop_run:
  "run (captured_step numbers) after_loop fan_init =
     Some \<lparr>f_pc = F_sleep, f_v = ''three'', f_goroutines = [U_end, U_end, U_end],
       f_out = [(0, ''three''), (1, ''three''), (2, ''three'')]\<rparr>"
  by (simp add: captured_step_def fan_step_def fan_main_def fan_go_def fan_init_def
      numbers_def after_loop_def)

lemma passed_after_loop_run:
  "run (passed_step numbers) after_loop fan_init =
     Some \<lparr>f_pc = F_sleep, f_v = ''three'', f_goroutines = [U_end, U_end, U_end],
       f_out = [(0, ''one''), (1, ''two''), (2, ''three'')]\<rparr>"
  by (simp add: passed_step_def fan_step_def fan_main_def fan_go_def fan_init_def
      numbers_def after_loop_def)

subsection \<open>The \<open>done\<close> channel\<close>

lemma done_ops_shape:
  assumes "\<forall>x\<in>set xs. snd (snd x) = DONE \<longrightarrow>
             (\<exists>k. x = (G k, Recv, DONE)) \<or> x = (MainG, Close, DONE)"
  shows "(\<forall>g. (g, Send, DONE) \<notin> set xs) \<and> (\<forall>k. (G k, Close, DONE) \<notin> set xs)"
  using assms by fastforce

text \<open>
  C3. In every run of the pool and of the program of lines 146--163, no goroutine ever
  sends on \<open>done\<close>, no worker or racing goroutine closes it, \<open>main\<close> closes it at most
  once, and nothing panics: the goroutines only receive from \<open>done\<close>.
\<close>

theorem C3_done_only_closed_and_received:
  assumes "run (pool_step n m) es pool_init = Some s"
    and "run (racer_step n') es' racer_init = Some t"
  shows "(\<forall>g. (g, Send, DONE) \<notin> set (ops s)) \<and> (\<forall>k. (G k, Close, DONE) \<notin> set (ops s))
    \<and> count_list (ops s) (MainG, Close, DONE) \<le> 1 \<and> panicked s = None
    \<and> (\<forall>g. (g, Send, DONE) \<notin> set (r_ops t)) \<and> (\<forall>k. (G k, Close, DONE) \<notin> set (r_ops t))
    \<and> count_list (r_ops t) (MainG, Close, DONE) \<le> 1 \<and> r_panicked t = None"
proof -
  from pool_run_invariants [OF assms(1)] have "pool_shape n m s" "pool_ops s" by simp_all
  then have p: "panicked s = None" "count_list (ops s) (MainG, Close, DONE) \<le> 1"
    "\<forall>x\<in>set (ops s). snd (snd x) = DONE \<longrightarrow>
       (\<exists>k. x = (G k, Recv, DONE)) \<or> x = (MainG, Close, DONE)"
    by (simp_all add: pool_shape_def pool_ops_def)
  from racer_run_invariants [OF assms(2)] have "racer_shape n' t" "racer_ops t" by simp_all
  then have r: "r_panicked t = None" "count_list (r_ops t) (MainG, Close, DONE) \<le> 1"
    "\<forall>x\<in>set (r_ops t). snd (snd x) = DONE \<longrightarrow>
       (\<exists>k. x = (G k, Recv, DONE)) \<or> x = (MainG, Close, DONE)"
    by (simp_all add: racer_shape_def racer_ops_def)
  from done_ops_shape [OF p(3)] done_ops_shape [OF r(3)] p(1,2) r(1,2)
  show ?thesis by simp
qed

theorem C3_done_only_closed_and_received_witness:
  "run (pool_step 2 2) pool_schedule pool_init \<noteq> None
   \<and> run (racer_step 3) racer_schedule racer_init \<noteq> None
   \<and> count_list (ops (the (run (pool_step 2 2) pool_schedule pool_init))) (MainG, Close, DONE) \<le> 1
   \<and> panicked (the (run (pool_step 2 2) pool_schedule pool_init)) = None
   \<and> count_list (r_ops (the (run (racer_step 3) racer_schedule racer_init)))
        (MainG, Close, DONE) \<le> 1
   \<and> r_panicked (the (run (racer_step 3) racer_schedule racer_init)) = None"
  using C3_done_only_closed_and_received [OF pool_schedule_run racer_schedule_run]
  by (simp add: pool_schedule_run racer_schedule_run)

subsection \<open>Writing the result\<close>




lemma query_returned_run:
  "run (Query_step answer conns3 ''q'') (take 8 query_waiting_first) query_init
     = Some query_returned"
  by (simp add: query_waiting_first_def Query_step_def Query_main_def Query_go_def
      query_init_def conns3_def answer_def query_returned_def)


subsection \<open>Closing \<open>done\<close> twice\<close>

text \<open>
  C5 fails as stated. In the state the pool has at line 86, \<open>close(done)\<close> closes the
  channel; executed a second time it panics, and leaves a state other than the one a single
  execution leaves.
\<close>

theorem C5_second_close_panics:
  "run (pool_step 2 2) (take 8 pool_schedule) pool_init = Some pool_at_close
   \<and> panicked (close_done pool_at_close) = None
   \<and> panicked (close_done (close_done pool_at_close)) = Some CloseOfClosed
   \<and> close_done (close_done pool_at_close) \<noteq> close_done pool_at_close"
  by (simp add: pool_at_close_run) (simp add: pool_at_close_def close_done_def close_chan_def)

text \<open>
  C5 as amended. The pool has no shutdown operation to call again: in every run \<open>main\<close>
  executes \<open>close(done)\<close> at most once, exactly once by the time it waits for the wait
  group, and the run does not panic. The statement is not idempotent: executed in a state
  where \<open>done\<close> is closed, it panics.
\<close>

theorem C5_done_closed_once:
  assumes "run (pool_step n m) es pool_init = Some s"
  shows "panicked s = None
    \<and> count_list (ops s) (MainG, Close, DONE) = (if done_closed s then 1 else 0)
    \<and> (done_closed s \<longleftrightarrow> pc s \<in> {P_wait, P_println, P_return})
    \<and> (done_closed s \<longrightarrow> panicked (close_done s) = Some CloseOfClosed)"
proof -
  from pool_run_invariants [OF assms] have "pool_shape n m s" "pool_ops s" by simp_all
  then show ?thesis
    by (simp add: pool_shape_def pool_ops_def close_done_def close_chan_def)
qed

theorem C5_done_closed_once_witness:
  "run (pool_step 2 2) pool_schedule pool_init \<noteq> None
   \<and> count_list (ops (the (run (pool_step 2 2) pool_schedule pool_init))) (MainG, Close, DONE) = 1
   \<and> panicked (close_done (the (run (pool_step 2 2) pool_schedule pool_init)))
       = Some CloseOfClosed"
  using C5_done_closed_once [OF pool_schedule_run]
  by (simp add: pool_schedule_run)

subsection \<open>\<open>Query\<close>\<close>

lemma Query_enabled_complete:
  assumes "Query_step DoQuery conns query e s \<noteq> None"
  shows "e \<in> set (enabled (Query_step DoQuery conns query) (length (q_goroutines s)) s)"
proof (cases e)
  case Main
  with assms show ?thesis by (simp add: enabled_def)
next
  case (Go k)
  with assms have "k < length (q_goroutines s)"
    by (simp add: Query_step_def Query_go_def split: if_splits)
  with assms Go show ?thesis by (auto simp: enabled_def)
next
  case (Select k c)
  with assms show ?thesis by (simp add: Query_step_def)
qed

text \<open>
  C2, at a failing input. With three connections answering 21, 42 and 63: when \<open>Query\<close>
  already waits in its receive, the answer of the second connection, the first to arrive,
  is returned. When the second connection answers while \<open>Query\<close> is still starting
  goroutines, its \<open>select\<close> finds no receiver and takes the \<open>default\<close>: the first answer
  is dropped and \<open>Query\<close> returns 21. When all three answer before \<open>Query\<close> reaches its
  receive, every answer is dropped and \<open>Query\<close> waits with no goroutine left to send:
  nothing can move.
\<close>

theorem C2_first_answer_dropped:
  "map_option Query_result (run (Query_step answer conns3 ''q'') query_waiting_first query_init)
     = Some (Some 42)
   \<and> map_option Query_result (run (Query_step answer conns3 ''q'') query_answer_early query_init)
     = Some (Some 21)
   \<and> run (Query_step answer conns3 ''q'') query_all_early query_init
     = Some \<lparr>q_pc = Q_recv, q_goroutines = [Q_end, Q_end, Q_end], q_ops = []\<rparr>
   \<and> enabled (Query_step answer conns3 ''q'') 3
        \<lparr>q_pc = Q_recv, q_goroutines = [Q_end, Q_end, Q_end], q_ops = []\<rparr> = []"
  by (simp add: query_waiting_first_run query_answer_early_run query_all_early_run
      Query_result_def)
     (simp add: enabled_def Query_step_def Query_main_def Query_go_def upt_rec)

text \<open>
  C6 fails as stated. With no connection, \<open>Query\<close> reaches its receive after one step,
  has returned nothing, and nothing can move.
\<close>

theorem C6_empty_query_blocks:
  "run (Query_step answer [] ''q'') [Main] query_init
     = Some \<lparr>q_pc = Q_recv, q_goroutines = [], q_ops = []\<rparr>
   \<and> Query_result \<lparr>q_pc = Q_recv, q_goroutines = [], q_ops = []\<rparr> = (None :: nat option)
   \<and> enabled (Query_step answer [] ''q'') 0 \<lparr>q_pc = Q_recv, q_goroutines = [], q_ops = []\<rparr> = []"
  by (simp add: Query_step_def Query_main_def query_init_def Query_result_def enabled_def)

lemma Query_empty_stuck:
  assumes "q_pc s = Q_recv" and "q_goroutines s = []"
  shows "Query_step DoQuery conns query e s = None"
  using assms by (cases e) (simp_all add: Query_step_def Query_main_def Query_go_def)

lemma Query_empty_first:
  assumes "Query_step DoQuery [] query e query_init = Some s"
  shows "e = Main \<and> q_pc s = Q_recv \<and> q_goroutines s = []"
  using assms
  by (cases e) (auto simp: Query_step_def Query_main_def Query_go_def query_init_def)

text \<open>
  C6 as amended. Called with no connection, \<open>Query\<close> starts no goroutine and never
  returns: its only step is to reach the receive on \<open>ch\<close>, where it waits with nothing
  able to move, whatever the schedule. It has no error result.
\<close>

theorem C6_empty_query_never_returns:
  assumes "run (Query_step DoQuery [] query) es query_init = Some s"
  shows "Query_result s = None \<and> q_goroutines s = [] \<and> (es = [] \<or> es = [Main])
    \<and> (\<forall>e. Query_step DoQuery [] query e s \<noteq> None \<longrightarrow> es = [] \<and> e = Main)"
proof (cases es)
  case Nil
  with assms have s: "s = query_init" by simp
  have "\<forall>e. Query_step DoQuery [] query e query_init \<noteq> None \<longrightarrow> e = Main"
    using Query_empty_first by (metis not_Some_eq)
  with s Nil show ?thesis by (simp add: Query_result_def query_init_def)
next
  case (Cons e es')
  with assms obtain u where u: "Query_step DoQuery [] query e query_init = Some u"
    and r: "run (Query_step DoQuery [] query) es' u = Some s"
    by (auto split: option.splits)
  from Query_empty_first [OF u] have e: "e = Main" and pc: "q_pc u = Q_recv"
    and gs: "q_goroutines u = []" by simp_all
  have stuck: "Query_step DoQuery [] query e' u = None" for e'
    using pc gs by (rule Query_empty_stuck)
  from r stuck have "es' = []" by (cases es') simp_all
  with r have "s = u" by simp
  with Cons e \<open>es' = []\<close> pc gs stuck show ?thesis by (simp add: Query_result_def)
qed

theorem C6_empty_query_never_returns_witness:
  "run (Query_step answer [] ''q'') [Main] query_init \<noteq> None
   \<and> Query_result (the (run (Query_step answer [] ''q'') [Main] query_init)) = None
   \<and> Query_step answer [] ''q'' Main (the (run (Query_step answer [] ''q'') [Main] query_init))
       = None"
  using C6_empty_query_never_returns [of answer "''q''" "[Main]"
      "\<lparr>q_pc = Q_recv, q_goroutines = [], q_ops = []\<rparr>"]
  by (simp add: Query_step_def Query_main_def query_init_def)

subsection \<open>What a goroutine started in a loop sees\<close>

text \<open>
  C8 fails as stated for the loop of lines 306--317. On the source's \<open>data\<close>, with every
  goroutine running after the loop has ended, each of the three goroutines prints
  \<open>three\<close>: the first does not print the element \<open>one\<close> it was started for.
\<close>

theorem C8_captured_variable_seen_late:
  "run (captured_step numbers) after_loop fan_init =
     Some \<lparr>f_pc = F_sleep, f_v = ''three'', f_goroutines = [U_end, U_end, U_end],
       f_out = [(0, ''three''), (1, ''three''), (2, ''three'')]\<rparr>
   \<and> numbers ! 0 = ''one'' \<and> numbers ! 1 = ''two'' \<and> ''three'' \<noteq> numbers ! 0"
  by (simp add: captured_after_loop_run) (simp add: numbers_def)

text \<open>
  C8 as amended. Where the element is passed as an argument (\<open>go func(in string)\<dots>(v)\<close>,
  and \<open>go doit(i, \<dots>)\<close> in the pool), every goroutine works on the element of its own
  iteration under every schedule: goroutine \<open>k\<close> prints \<open>data ! k\<close>, and worker \<open>k\<close> has
  \<open>workerId = k\<close>. Where the function literal reads the loop variable itself, goroutine \<open>k\<close>
  prints the element of some iteration \<open>j \<ge> k\<close>, the value of the variable when it runs;
  one that runs after the loop has ended prints the last element.
\<close>

theorem C8_goroutine_input:
  assumes "run (passed_step data) es fan_init = Some s"
    and "run (captured_step data) es' fan_init = Some t"
    and "run (pool_step n m) es'' pool_init = Some p"
  shows "(\<forall>x\<in>set (f_out s). fst x < length data \<and> snd x = data ! fst x)
    \<and> (\<forall>x\<in>set (f_out t). \<exists>j. fst x \<le> j \<and> j < length data \<and> snd x = data ! j)
    \<and> (\<forall>k t'. f_pc t = F_sleep \<and> captured_step data (Go k) t = Some t'
          \<longrightarrow> f_out t' = f_out t @ [(k, last data)])
    \<and> map fst (workers p) = [0..<length (workers p)]"
proof -
  from passed_run_invariants [OF assms(1)] have a: "passed_own data s" by simp
  from captured_run_invariants [OF assms(2)]
  have b: "fan_shape data t" "captured_later data t" by simp_all
  from pool_run_invariants [OF assms(3)] have c: "pool_shape n m p" by simp
  have "f_out t' = f_out t @ [(k, last data)]"
    if "f_pc t = F_sleep" and "captured_step data (Go k) t = Some t'" for k t'
    using that(2) unfolding captured_step_def
  proof (cases rule: fan_step_cases)
    case (unit j x)
    with b(1) that(1) have "data \<noteq> []" "f_v t = data ! (length data - 1)"
      by (auto simp: fan_shape_def)
    with unit show ?thesis by (simp add: last_conv_nth)
  qed simp_all
  with a b(2) c show ?thesis
    by (simp add: passed_own_def captured_later_def pool_shape_def)
qed

theorem C8_goroutine_input_witness:
  "run (passed_step numbers) after_loop fan_init \<noteq> None
   \<and> run (captured_step numbers) after_loop fan_init \<noteq> None
   \<and> run (pool_step 2 2) pool_schedule pool_init \<noteq> None
   \<and> f_out (the (run (passed_step numbers) after_loop fan_init))
       = [(0, ''one''), (1, ''two''), (2, ''three'')]
   \<and> map fst (workers (the (run (pool_step 2 2) pool_schedule pool_init))) = [0, 1]"
  using C8_goroutine_input [OF passed_after_loop_run captured_after_loop_run pool_schedule_run]
  by (simp add: passed_after_loop_run captured_after_loop_run pool_schedule_run)

end
